theory Spec2Isabelle
  imports Complex_Main "HOL-Library.Log_Nat"
begin

section \<open>Crop geometry of \<open>pillarbox_to_4x3.py\<close>\<close>

text \<open>
  Python integers are unbounded and are modelled as \<open>int\<close>; \<open>//\<close> and \<open>%\<close> round towards
  minus infinity, as \<open>div\<close> and \<open>mod\<close> on \<open>int\<close> do.  The program's floating-point values
  are quotients of two integers that are rounded or compared with a constant.  In
  \<open>round(ih * 4 / 3)\<close> and in \<open>abs(cw / ch - 4/3) < 0.01\<close> they are modelled as exact
  rationals (\<open>rat\<close>), which gives what double arithmetic gives for dimensions below
  \<open>2 ^ 51\<close>.  The test \<open>src_aspect > (4/3) + 0.005\<close> is different: at the ratio 803/600
  the doubles compare as greater where the exact numbers are equal, so this test is
  modelled in double arithmetic (\<open>to_double\<close> below).
\<close>

type_synonym crop = "int \<times> int \<times> int \<times> int"

text \<open>\<open>even(n)\<close>: \<open>int(n) - (int(n) % 2)\<close>; every call site passes an integer.\<close>

definition even_py :: "int \<Rightarrow> int" where
  "even_py n = n - (n mod 2)"

text \<open>The built-in \<open>round\<close> on one argument: nearest integer, a tie goes to the even one.\<close>

definition py_round :: "rat \<Rightarrow> int" where
  "py_round q =
     (let f = \<lfloor>q\<rfloor>; d = q - of_int f
      in if d < 1 / 2 then f
         else if 1 / 2 < d then f + 1
         else if f mod 2 = 0 then f else f + 1)"

text \<open>
  A double is modelled by the rational number it denotes.  \<open>binade x\<close> is the exponent
  \<open>e\<close> with \<open>2 ^ e \<le> x < 2 ^ (e + 1)\<close> for a positive \<open>x\<close>, and \<open>to_double\<close> rounds a
  rational to the nearest number with a significand of 53 bits, a tie going to the even
  significand: the rounding of IEEE 754 double arithmetic, of Python's \<open>/\<close> on two
  integers and of its decimal literals.  The range of the exponent is not bounded:
  overflow and subnormal numbers need quotients above \<open>2 ^ 1023\<close> or below
  \<open>2 ^ - 1022\<close>.
\<close>

definition binade :: "rat \<Rightarrow> int" where
  "binade x =
     (case quotient_of x of (n, d) \<Rightarrow>
        if d \<le> n then int (floorlog 2 (nat (n div d))) - 1
        else - int (floorlog 2 (nat ((d - 1) div n))))"

definition to_double :: "rat \<Rightarrow> rat" where
  "to_double x =
     (if x = 0 then 0
      else let u = 2 powi (binade \<bar>x\<bar> - 52)
           in sgn x * of_int (py_round (\<bar>x\<bar> / u)) * u)"

text \<open>\<open>centered_4x3_crop(iw, ih)\<close>.\<close>

definition centered_4x3_crop :: "int \<Rightarrow> int \<Rightarrow> crop" where
  "centered_4x3_crop iw ih =
     (let target_w = min iw (py_round (of_int (ih * 4) / 3));
          target_w = even_py target_w;
          target_h = even_py ih;
          x = even_py ((iw - target_w) div 2);
          y = even_py ((ih - target_h) div 2)
      in (target_w, target_h, x, y))"

subsection \<open>Detection scan: the consensus crop\<close>

datatype error = RuntimeError | JSONDecodeError | ZeroDivisionError | IndexError | SystemExit int

text \<open>
  \<open>collections.Counter\<close> is a dictionary, which keeps its keys in the order of their first
  insertion; it is modelled as an association list in that order.  \<open>Counter(xs)\<close>
  goes through \<open>xs\<close> from left to right and adds one to the count of each element.
\<close>

fun counter_add :: "'a \<Rightarrow> ('a \<times> nat) list \<Rightarrow> ('a \<times> nat) list" where
  "counter_add k [] = [(k, 1)]"
| "counter_add k ((k', n) # kvs) =
     (if k = k' then (k', n + 1) # kvs else (k', n) # counter_add k kvs)"

definition Counter :: "'a list \<Rightarrow> ('a \<times> nat) list" where
  "Counter xs = foldl (\<lambda>acc x. counter_add x acc) [] xs"

text \<open>
  \<open>most_common(1)\<close> is \<open>heapq.nlargest(1, items, key=count)\<close>, which for one element is
  \<open>max(items, key=count)\<close>: the running best item is replaced only by an item whose count is
  strictly greater, and the result is a list of at most one item.
\<close>

fun first_max :: "('a \<times> nat) \<Rightarrow> ('a \<times> nat) list \<Rightarrow> ('a \<times> nat)" where
  "first_max best [] = best"
| "first_max best (c # cs) = first_max (if snd best < snd c then c else best) cs"

fun most_common1 :: "('a \<times> nat) list \<Rightarrow> ('a \<times> nat) list" where
  "most_common1 [] = []"
| "most_common1 (c # cs) = [first_max c cs]"

text \<open>
  \<open>run_cropdetect\<close>, from the list \<open>crops\<close> of the tuples parsed out of the scan's output
  (the subprocess and the text of its output are outside the model).  The index \<open>[0]\<close> on
  the result of \<open>most_common(1)\<close> raises on an empty list.
\<close>

definition run_cropdetect :: "crop list \<Rightarrow> error + crop option" where
  "run_cropdetect crops =
     (if crops = [] then Inr None
      else case most_common1 (Counter crops) of
             [] \<Rightarrow> Inl IndexError
           | (mode, _) # _ \<Rightarrow>
               (case mode of (w, h, x, y) \<Rightarrow> Inr (Some (even_py w, even_py h, even_py x, even_py y))))"

subsection \<open>Encoder choice\<close>

definition CODEC_MAP :: "(string \<times> string) list" where
  "CODEC_MAP =
     [(''h264'', ''libx264''),
      (''hevc'', ''libx265''),
      (''mpeg4'', ''mpeg4''),
      (''mpeg2video'', ''mpeg2video''),
      (''vp9'', ''libvpx-vp9''),
      (''av1'', ''libaom-av1''),
      (''theora'', ''libtheora''),
      (''prores'', ''prores_ks''),
      (''h263'', ''h263'')]"

definition choose_encoder :: "string \<Rightarrow> string" where
  "choose_encoder codec_name =
     (case map_of CODEC_MAP codec_name of None \<Rightarrow> codec_name | Some enc \<Rightarrow> enc)"

subsection \<open>The ffmpeg command line\<close>

text \<open>\<open>str\<close> of an integer: its decimal digits, with a minus sign when negative.\<close>

definition digit_char :: "nat \<Rightarrow> char" where
  "digit_char d = ''0123456789'' ! d"

fun str_nat :: "nat \<Rightarrow> string" where
  "str_nat n = (if n < 10 then [digit_char n] else str_nat (n div 10) @ [digit_char (n mod 10)])"

declare str_nat.simps [simp del]

definition str_int :: "int \<Rightarrow> string" where
  "str_int i = (if i < 0 then CHR ''-'' # str_nat (nat (- i)) else str_nat (nat i))"

text \<open>The quality options that \<open>build_ffmpeg_cmd\<close> appends (its \<open>if\<close>/\<open>elif\<close>/\<open>else\<close>).\<close>

definition quality_args :: "string \<Rightarrow> int option \<Rightarrow> int option \<Rightarrow> string list" where
  "quality_args v_encoder v_bitrate crf =
     (case crf of
        Some c \<Rightarrow>
          [''-crf'', str_int c] @
          (if v_encoder \<in> {''libvpx-vp9'', ''libaom-av1''} then [''-b:v'', ''0''] else [])
      | None \<Rightarrow>
          (if v_bitrate \<noteq> None \<and> 0 < the v_bitrate
           then [''-b:v'', str_int (the v_bitrate), ''-maxrate'', str_int (the v_bitrate),
                 ''-bufsize'', str_int (the v_bitrate * 2)]
           else [''-crf'', (if v_encoder \<in> {''libx264'', ''libx265''} then ''18'' else ''28'')] @
                (if v_encoder \<in> {''libvpx-vp9'', ''libaom-av1''} then [''-b:v'', ''0''] else [])))"

definition build_ffmpeg_cmd ::
  "string \<Rightarrow> string \<Rightarrow> crop \<Rightarrow> string \<Rightarrow> int option \<Rightarrow> int option \<Rightarrow> string \<Rightarrow> string list" where
  "build_ffmpeg_cmd src dst crop v_encoder v_bitrate crf preset =
     (case crop of (crop_w, crop_h, x, y) \<Rightarrow>
        let vf = ''crop='' @ str_int crop_w @ '':'' @ str_int crop_h @ '':'' @ str_int x @ '':'' @ str_int y;
            cmd = [''ffmpeg'',
                   ''-stats'', ''-loglevel'', ''level+info'',
                   ''-y'', ''-i'', src,
                   ''-map'', ''0'',
                   ''-map_metadata'', ''0'',
                   ''-map_chapters'', ''0'',
                   ''-c:a'', ''copy'',
                   ''-c:s'', ''copy'',
                   ''-c:d'', ''copy'',
                   ''-c:t'', ''copy'',
                   ''-c:v'', v_encoder,
                   ''-vf'', vf,
                   ''-preset'', preset];
            cmd = cmd @ quality_args v_encoder v_bitrate crf
        in cmd @ [''-movflags'', ''use_metadata_tags+faststart'', dst])"

text \<open>The command that \<open>main\<close> builds when no crop is needed.\<close>

definition stream_copy_cmd :: "string \<Rightarrow> string \<Rightarrow> string list" where
  "stream_copy_cmd src dst =
     [''ffmpeg'', ''-stats'', ''-loglevel'', ''level+info'', ''-y'', ''-i'', src,
      ''-map'', ''0'', ''-map_metadata'', ''0'', ''-map_chapters'', ''0'',
      ''-c'', ''copy'', ''-movflags'', ''use_metadata_tags+faststart'',
      dst]"

subsection \<open>Probe results\<close>

text \<open>
  A value that \<open>parse_int\<close> receives from the probe's JSON document: \<open>Absent\<close> when the key
  is missing (\<open>dict.get\<close> gives \<open>None\<close>, on which \<open>int\<close> raises \<open>TypeError\<close>),
  \<open>NonNumeric\<close> for a value on which \<open>int\<close> raises \<open>TypeError\<close> or \<open>ValueError\<close>, and
  \<open>Numeric n\<close> for a value that \<open>int\<close> turns into \<open>n\<close>.  Every call of \<open>parse_int\<close> in the
  program leaves \<open>default\<close> at \<open>None\<close>.
\<close>

datatype field = Absent | NonNumeric | Numeric int

fun parse_int :: "field \<Rightarrow> int option" where
  "parse_int (Numeric n) = Some n"
| "parse_int Absent = None"
| "parse_int NonNumeric = None"

record stream =
  codec_type :: "string option"
  codec_name :: "string option"
  width :: field
  height :: field
  bit_rate :: field

text \<open>
  The probe document: its \<open>streams\<close> (empty when the key is missing) and the \<open>bit_rate\<close>
  of its \<open>format\<close> object (\<open>Absent\<close> also when there is no \<open>format\<close>).
\<close>

record info =
  streams :: "stream list"
  format_bit_rate :: field

definition get_video_stream :: "info \<Rightarrow> stream option" where
  "get_video_stream i = find (\<lambda>s. codec_type s = Some ''video'') (streams i)"

subsection \<open>The loop of \<open>main\<close>\<close>

record args =
  use_cropdetect :: bool
  crf :: "int option"
  preset :: string
  dry_run :: bool

text \<open>
  What the outside world answers for one input path: whether the path exists, the return
  code of \<open>ffprobe\<close> and the document parsed from its output (\<open>None\<close> when \<open>json.loads\<close>
  raises), the tuples that \<open>run_cropdetect\<close> parses out of the scan (read only when the
  scan is enabled), the value of \<open>output_path_for\<close>, and the return code of the command
  that is run (read only when a command is run).
\<close>

record file_env =
  src_exists :: bool
  ffprobe_rc :: int
  ffprobe_out :: "info option"
  cropdetect_crops :: "crop list"
  dst_path :: string
  ffmpeg_rc :: int

definition ffprobe_json :: "file_env \<Rightarrow> error + info" where
  "ffprobe_json e =
     (if ffprobe_rc e \<noteq> 0 then Inl RuntimeError
      else case ffprobe_out e of None \<Rightarrow> Inl JSONDecodeError | Some i \<Rightarrow> Inr i)"

text \<open>Lines 249 to 254: the stream's bit rate, else the container's; low values dropped.\<close>

definition source_bitrate :: "info \<Rightarrow> stream \<Rightarrow> int option" where
  "source_bitrate i v =
     (let v_bitrate = parse_int (bit_rate v);
          v_bitrate = (if v_bitrate = None then parse_int (format_bit_rate i) else v_bitrate)
      in if v_bitrate \<noteq> None \<and> the v_bitrate < 100000 then None else v_bitrate)"

text \<open>
  Line 260, \<open>src_aspect = iw / ih if ih else 0.0\<close>, and the constant \<open>(4/3) + 0.005\<close> of
  line 276, both as the doubles that the program computes.
\<close>

definition src_aspect :: "int \<Rightarrow> int \<Rightarrow> rat" where
  "src_aspect iw ih = (if ih \<noteq> 0 then to_double (of_int iw / of_int ih) else 0)"

definition aspect_limit :: rat where
  "aspect_limit = to_double (to_double (4 / 3) + to_double (5 / 1000))"

text \<open>
  Lines 263 to 272: the crop taken from the detection scan.  The quotient \<open>cw / ch\<close> raises
  \<open>ZeroDivisionError\<close> when \<open>ch\<close> is zero; a tuple of four is always true in \<open>if c\<close>.
\<close>

definition detect_crop :: "args \<Rightarrow> int \<Rightarrow> crop list \<Rightarrow> error + crop option" where
  "detect_crop a iw crops =
     (if use_cropdetect a then
        (case run_cropdetect crops of
           Inl err \<Rightarrow> Inl err
         | Inr None \<Rightarrow> Inr None
         | Inr (Some (cw, ch, cx, cy)) \<Rightarrow>
             if ch = 0 then Inl ZeroDivisionError
             else if \<bar>of_int cw / of_int ch - (4 / 3 :: rat)\<bar> < 1 / 100
             then (let cw' = even_py (py_round (of_int (ch * 4) / 3));
                       cx' = even_py ((iw - cw') div 2)
                   in Inr (Some (cw', ch, cx', cy)))
             else Inr (Some (cw, ch, cx, cy)))
      else Inr None)"

text \<open>Lines 274 to 277: without a detected crop, the centered crop of a source wider than 4:3.\<close>

definition decide_crop :: "args \<Rightarrow> int \<Rightarrow> int \<Rightarrow> crop list \<Rightarrow> error + crop option" where
  "decide_crop a iw ih crops =
     (case detect_crop a iw crops of
        Inl err \<Rightarrow> Inl err
      | Inr (Some crop) \<Rightarrow> Inr (Some crop)
      | Inr None \<Rightarrow>
          if aspect_limit < src_aspect iw ih then Inr (Some (centered_4x3_crop iw ih))
          else Inr None)"

datatype skip_reason = MissingFile | NoVideoStream | NoDimensions

datatype step = Skip skip_reason | Run "string list"

text \<open>
  One pass of the loop body up to the command (lines 234 to 312): the file is skipped, or a
  command is built, or an exception leaves the loop.  \<open>src\<close> is the text of the path.
  The note about 10-bit input only prints a message and is left out, as are the messages
  themselves; the check for the two tools and the creation of the output directory come
  before the loop.
\<close>

definition plan_file :: "args \<Rightarrow> string \<Rightarrow> file_env \<Rightarrow> error + step" where
  "plan_file a src e =
     (if \<not> src_exists e then Inr (Skip MissingFile)
      else case ffprobe_json e of
        Inl err \<Rightarrow> Inl err
      | Inr i \<Rightarrow>
         (case get_video_stream i of
            None \<Rightarrow> Inr (Skip NoVideoStream)
          | Some v \<Rightarrow>
             (let iw = parse_int (width v);
                  ih = parse_int (height v);
                  v_bitrate = source_bitrate i v
              in if iw = None \<or> ih = None then Inr (Skip NoDimensions)
                 else case decide_crop a (the iw) (the ih) (cropdetect_crops e) of
                   Inl err \<Rightarrow> Inl err
                 | Inr None \<Rightarrow> Inr (Run (stream_copy_cmd src (dst_path e)))
                 | Inr (Some crop) \<Rightarrow>
                     (let v_encoder =
                            choose_encoder (case codec_name v of None \<Rightarrow> [] | Some c \<Rightarrow> c)
                      in Inr (Run (build_ffmpeg_cmd src (dst_path e) crop v_encoder
                                     (if crf a = None then v_bitrate else None)
                                     (crf a) (preset a)))))))"

text \<open>
  The loop over the inputs: the steps taken, in order, and the exception that ended the loop,
  if any.  A command is printed, and run unless \<open>dry_run\<close> is set; a non-zero return code
  then ends the program with \<open>sys.exit(rc)\<close>.  No exception is caught anywhere in \<open>main\<close>.
\<close>

fun main_loop :: "args \<Rightarrow> (string \<times> file_env) list \<Rightarrow> step list \<times> error option" where
  "main_loop a [] = ([], None)"
| "main_loop a ((src, e) # rest) =
     (case plan_file a src e of
        Inl err \<Rightarrow> ([], Some err)
      | Inr (Skip r) \<Rightarrow> (case main_loop a rest of (taken, res) \<Rightarrow> (Skip r # taken, res))
      | Inr (Run cmd) \<Rightarrow>
          if \<not> dry_run a \<and> ffmpeg_rc e \<noteq> 0 then ([Run cmd], Some (SystemExit (ffmpeg_rc e)))
          else (case main_loop a rest of (taken, res) \<Rightarrow> (Run cmd # taken, res)))"

subsection \<open>The specification's vocabulary\<close>

text \<open>
  The specification's ``rounded down to the nearest even integer'', used to state what the
  specification says next to what the program computes.
\<close>

definition spec_round_down_even :: "int \<Rightarrow> int" where
  "spec_round_down_even n = 2 * (n div 2)"

text \<open>
  The first element, in list order, whose number of occurrences in the list is maximal: the
  most frequent element, with a tie going to the one that is seen first.
\<close>

definition first_seen_mode :: "'a list \<Rightarrow> 'a option" where
  "first_seen_mode xs = find (\<lambda>x. \<forall>y\<in>set xs. count_list xs y \<le> count_list xs x) xs"

text \<open>
  The specification's CropSpec invariant for a source of \<open>iw\<close> by \<open>ih\<close> pixels: four even,
  non-negative values, with the rectangle inside the source frame.
\<close>

definition spec_crop_ok :: "int \<Rightarrow> int \<Rightarrow> crop \<Rightarrow> bool" where
  "spec_crop_ok iw ih c =
     (case c of (w, h, x, y) \<Rightarrow>
        even w \<and> even h \<and> even x \<and> even y \<and> 0 \<le> w \<and> 0 \<le> h \<and> 0 \<le> x \<and> 0 \<le> y
        \<and> x + w \<le> iw \<and> y + h \<le> ih)"

text \<open>
  A file reaches the crop decision when it exists, the probe succeeds and parses, and the
  first video stream has readable dimensions.
\<close>

definition probed :: "file_env \<Rightarrow> info \<Rightarrow> stream \<Rightarrow> int \<Rightarrow> int \<Rightarrow> bool" where
  "probed e i v iw ih =
     (src_exists e \<and> ffprobe_rc e = 0 \<and> ffprobe_out e = Some i \<and> get_video_stream i = Some v
      \<and> parse_int (width v) = Some iw \<and> parse_int (height v) = Some ih)"

text \<open>
  The specification's quality strategies: constant quality with a CRF value, with or without
  the bitrate target set to 0, or bitrate parity with a target, a max-rate and a buffer size.
  \<open>spec_quality\<close> is the specification's decision table, read in order, on the resolved
  encoder, the bitrate that the probe gave (the stream's, else the container's) and the CRF
  value that the caller requested.
\<close>

datatype quality = ConstantQuality int bool | BitrateParity int int int

definition probed_bitrate :: "info \<Rightarrow> stream \<Rightarrow> int option" where
  "probed_bitrate i v =
     (case parse_int (bit_rate v) of Some b \<Rightarrow> Some b | None \<Rightarrow> parse_int (format_bit_rate i))"

definition spec_fallback_quality :: "string \<Rightarrow> quality" where
  "spec_fallback_quality enc =
     ConstantQuality (if enc = ''libx264'' \<or> enc = ''libx265'' then 18 else 28)
       (enc = ''libvpx-vp9'' \<or> enc = ''libaom-av1'')"

definition spec_quality :: "string \<Rightarrow> int option \<Rightarrow> int option \<Rightarrow> quality" where
  "spec_quality enc bitrate requested =
     (case requested of
        Some V \<Rightarrow> ConstantQuality V (enc = ''libvpx-vp9'' \<or> enc = ''libaom-av1'')
      | None \<Rightarrow>
          (case bitrate of
             Some b \<Rightarrow> if 100000 \<le> b then BitrateParity b b (2 * b) else spec_fallback_quality enc
           | None \<Rightarrow> spec_fallback_quality enc))"

text \<open>How a quality strategy shows in the options of the command.\<close>

fun quality_options :: "quality \<Rightarrow> string list" where
  "quality_options (ConstantQuality V zero) =
     [''-crf'', str_int V] @ (if zero then [''-b:v'', ''0''] else [])"
| "quality_options (BitrateParity target maxrate bufsize) =
     [''-b:v'', str_int target, ''-maxrate'', str_int maxrate, ''-bufsize'', str_int bufsize]"

text \<open>
  The source aspect ratio as an exact number (0 for a height of 0, as in the program), which
  the specification compares with 4/3 + 0.005.
\<close>

definition exact_aspect :: "int \<Rightarrow> int \<Rightarrow> rat" where
  "exact_aspect iw ih = (if ih \<noteq> 0 then of_int iw / of_int ih else 0)"

section \<open>Properties\<close>

subsection \<open>Rounding\<close>

lemma even_py_eq: "even_py n = 2 * (n div 2)"
  unfolding even_py_def by presburger

lemma even_py_le: "even_py n \<le> n"
  by (simp add: even_py_def)

lemma floor_thirds: "\<lfloor>(of_int m :: rat) / 3\<rfloor> = m div 3"
  using floor_divide_of_int_eq [of m 3, where ?'a = rat] by simp

lemma frac_thirds: "(of_int m :: rat) / 3 - of_int (m div 3) = of_int (m mod 3) / 3"
proof -
  have "m = 3 * (m div 3) + m mod 3" by simp
  then have "(of_int m :: rat) = 3 * of_int (m div 3) + of_int (m mod 3)"
    by (metis of_int_add of_int_mult of_int_numeral)
  then show ?thesis by (simp add: field_simps)
qed

lemma py_round_thirds: "py_round (of_int m / 3) = (m + 1) div 3"
proof -
  have cases: "m mod 3 = 0 \<or> m mod 3 = 1 \<or> m mod 3 = 2" by presburger
  have d: "(of_int m :: rat) / 3 - of_int \<lfloor>(of_int m :: rat) / 3\<rfloor> = of_int (m mod 3) / 3"
    by (simp only: floor_thirds frac_thirds)
  from cases show ?thesis
  proof (elim disjE)
    assume r: "m mod 3 = 0"
    then have "(m + 1) div 3 = m div 3" by presburger
    with r d show ?thesis by (simp add: py_round_def Let_def floor_thirds)
  next
    assume r: "m mod 3 = 1"
    then have "(m + 1) div 3 = m div 3" by presburger
    with r d show ?thesis by (simp add: py_round_def Let_def floor_thirds)
  next
    assume r: "m mod 3 = 2"
    then have "(m + 1) div 3 = m div 3 + 1" by presburger
    with r d show ?thesis by (simp add: py_round_def Let_def floor_thirds)
  qed
qed

lemma round_thirds: "round ((of_int m :: rat) / 3) = (m + 1) div 3"
proof -
  have "(of_int m :: rat) / 3 + 1 / 2 = of_int (2 * m + 3) / 6" by (simp add: field_simps)
  then have "round ((of_int m :: rat) / 3) = \<lfloor>(of_int (2 * m + 3) :: rat) / 6\<rfloor>"
    unfolding round_def by (simp only:)
  also have "\<dots> = (2 * m + 3) div 6"
    using floor_divide_of_int_eq [of "2 * m + 3" 6, where ?'a = rat] by simp
  also have "\<dots> = (m + 1) div 3" by presburger
  finally show ?thesis .
qed

lemma py_round_is_round: "py_round (of_int m / 3) = round ((of_int m :: rat) / 3)"
  by (simp only: py_round_thirds round_thirds)

lemma centered_4x3_crop_eq:
  "centered_4x3_crop iw ih =
     (even_py (min iw ((ih * 4 + 1) div 3)), even_py ih,
      even_py ((iw - even_py (min iw ((ih * 4 + 1) div 3))) div 2),
      even_py ((ih - even_py ih) div 2))"
  by (simp only: centered_4x3_crop_def Let_def py_round_thirds)

subsection \<open>Double arithmetic\<close>

lemma py_round_le: "x < of_int N + 1 / 2 \<Longrightarrow> py_round x \<le> N"
  unfolding py_round_def Let_def by (auto; linarith)

lemma py_round_ge: "of_int N - 1 / 2 < x \<Longrightarrow> N \<le> py_round x"
  unfolding py_round_def Let_def by (auto; linarith)

lemma py_round_tie_odd: "of_int N + 1 / 2 \<le> x \<Longrightarrow> odd N \<Longrightarrow> N + 1 \<le> py_round x"
proof -
  assume x: "of_int N + 1 / 2 \<le> x" and odd: "odd N"
  show ?thesis
  proof (cases "x = of_int N + 1 / 2")
    case True
    then have f: "\<lfloor>x\<rfloor> = N" by (simp add: floor_eq_iff)
    then have "x - of_int \<lfloor>x\<rfloor> = 1 / 2" using True by simp
    moreover have "N mod 2 = 1" using odd by presburger
    ultimately show ?thesis
      using f by (simp add: py_round_def Let_def)
  next
    case False
    with x have "of_int (N + 1) - 1 / 2 < x" by simp
    then show ?thesis by (rule py_round_ge)
  qed
qed

lemma binade_bounds:
  assumes "0 < x"
  shows "2 powi binade x \<le> x \<and> x < 2 powi (binade x + 1)"
proof -
  obtain n d where q: "quotient_of x = (n, d)" by (cases "quotient_of x") auto
  have d: "0 < d" using q by (rule quotient_of_denom_pos)
  have x: "x = of_int n / of_int d" using q by (rule quotient_of_div)
  have n: "0 < n" using assms d unfolding x by (simp add: zero_less_divide_iff)
  show ?thesis
  proof (cases "d \<le> n")
    case True
    define k where "k = n div d"
    define f where "f = floorlog 2 (nat k)"
    have "0 < k" unfolding k_def using True d by (simp add: pos_imp_zdiv_pos_iff)
    then have k1: "1 \<le> k" by simp
    then have kn: "0 < nat k" by simp
    from floorlog_bounds [OF kn, of 2]
    have fb: "2 ^ (f - 1) \<le> nat k" "nat k < 2 ^ f" unfolding f_def by simp_all
    have "f \<noteq> 0" unfolding f_def using kn by (simp add: floorlog_eq_zero_iff)
    then have f1: "1 \<le> f" by simp
    have b: "binade x = int (f - 1)"
      using True f1 by (simp add: binade_def q k_def f_def)
    have klo: "(2 :: int) ^ (f - 1) \<le> k" using fb(1) k1 by (simp add: le_nat_iff flip: of_nat_le_iff)
    have "k < (2 :: int) ^ f" using fb(2) k1 by (simp add: nat_less_iff)
    then have khi: "k + 1 \<le> (2 :: int) ^ f" by simp
    have kx: "of_int k \<le> x" "x < of_int k + 1"
      using floor_correct [of "of_int n / of_int d :: rat"]
      unfolding floor_divide_of_int_eq x k_def by simp_all
    have lo: "(2 :: rat) ^ (f - 1) \<le> x"
    proof -
      have "(2 :: rat) ^ (f - 1) = of_int (2 ^ (f - 1))" by simp
      also have "\<dots> \<le> of_int k" using klo by (simp only: of_int_le_iff)
      also have "\<dots> \<le> x" by (rule kx(1))
      finally show ?thesis .
    qed
    have hi: "x < (2 :: rat) ^ f"
    proof -
      have "x < of_int k + 1" by (rule kx(2))
      also have "\<dots> = (of_int (k + 1) :: rat)" by simp
      also have "\<dots> \<le> of_int (2 ^ f)" using khi by (simp only: of_int_le_iff)
      also have "\<dots> = (2 :: rat) ^ f" by simp
      finally show ?thesis .
    qed
    have e1: "int (f - 1) + 1 = int f" using f1 by simp
    show ?thesis
      unfolding b e1 power_int_of_nat using lo hi by simp
  next
    case False
    then have nd: "n < d" by simp
    define j where "j = (d - 1) div n"
    define f where "f = floorlog 2 (nat j)"
    have "0 < j" unfolding j_def using nd n by (simp add: pos_imp_zdiv_pos_iff)
    then have j1: "1 \<le> j" by simp
    then have jn: "0 < nat j" by simp
    from floorlog_bounds [OF jn, of 2]
    have fb: "2 ^ (f - 1) \<le> nat j" "nat j < 2 ^ f" unfolding f_def by simp_all
    have "f \<noteq> 0" unfolding f_def using jn by (simp add: floorlog_eq_zero_iff)
    then have f1: "1 \<le> f" by simp
    have b: "binade x = - int f"
      using False by (simp add: binade_def q j_def f_def)
    have jlo: "(2 :: int) ^ (f - 1) \<le> j" using fb(1) j1 by (simp add: le_nat_iff flip: of_nat_le_iff)
    have "j < (2 :: int) ^ f" using fb(2) j1 by (simp add: nat_less_iff)
    then have jhi: "j + 1 \<le> (2 :: int) ^ f" by simp
    have dm: "d - 1 = j * n + (d - 1) mod n" unfolding j_def by simp
    have m0: "0 \<le> (d - 1) mod n" and m1: "(d - 1) mod n < n" using n by simp_all
    have jn1: "j * n \<le> d - 1" using dm m0 by linarith
    have jn2: "d - 1 < (j + 1) * n" using dm m1 by (simp add: algebra_simps)
    have a1: "2 ^ (f - 1) * n < d"
    proof -
      have "2 ^ (f - 1) * n \<le> j * n" using jlo n by (simp add: mult_right_mono)
      with jn1 show ?thesis by linarith
    qed
    have a2: "d \<le> 2 ^ f * n"
    proof -
      have "(j + 1) * n \<le> 2 ^ f * n" using jhi n by (simp add: mult_right_mono)
      with jn2 show ?thesis by linarith
    qed
    have dr: "(0 :: rat) < of_int d" using d by simp
    have lo: "1 / (2 :: rat) ^ f \<le> x"
    proof -
      have "(of_int d :: rat) \<le> of_int (2 ^ f * n)" using a2 by (simp only: of_int_le_iff)
      then have "(of_int d :: rat) \<le> 2 ^ f * of_int n" by simp
      then show ?thesis unfolding x using dr by (simp add: field_simps)
    qed
    have hi: "x < 1 / (2 :: rat) ^ (f - 1)"
    proof -
      have "(of_int (2 ^ (f - 1) * n) :: rat) < of_int d" using a1 by (simp only: of_int_less_iff)
      then have "(2 :: rat) ^ (f - 1) * of_int n < of_int d" by simp
      then show ?thesis unfolding x using dr by (simp add: field_simps)
    qed
    have e1: "- int f + 1 = - int (f - 1)" using f1 by simp
    show ?thesis
      unfolding b e1 power_int_minus power_int_of_nat using lo hi by (simp add: field_simps)
  qed
qed

lemma powi_less_cancel: "(2 :: rat) powi a < 2 powi b \<Longrightarrow> a < b"
  using power_int_increasing [of b a "2 :: rat"] by (cases "a < b") auto

lemma binade_unique:
  assumes "0 < x" and "2 powi e \<le> x" and "x < 2 powi (e + 1)"
  shows "binade x = e"
proof -
  note b = binade_bounds [OF assms(1)]
  from b assms(3) have "(2 :: rat) powi binade x < 2 powi (e + 1)" by simp
  then have 1: "binade x < e + 1" by (rule powi_less_cancel)
  from b assms(2) have "(2 :: rat) powi e < 2 powi (binade x + 1)" by simp
  then have 2: "e < binade x + 1" by (rule powi_less_cancel)
  from 1 2 show ?thesis by simp
qed

lemma powi_split: "(2 :: rat) powi e = 2 powi k * 2 powi (e - k)"
  using power_int_add [of "2 :: rat" k "e - k"] by simp

lemma to_double_pos:
  "0 < x \<Longrightarrow>
   to_double x = of_int (py_round (x / 2 powi (binade x - 52))) * 2 powi (binade x - 52)"
  by (simp add: to_double_def Let_def)

lemma to_double_nonpos: "x \<le> 0 \<Longrightarrow> to_double x \<le> 0"
proof -
  assume x: "x \<le> 0"
  show ?thesis
  proof (cases "x = 0")
    case True
    then show ?thesis by (simp add: to_double_def)
  next
    case False
    with x have neg: "x < 0" by simp
    let ?u = "(2 :: rat) powi (binade \<bar>x\<bar> - 52)"
    have u: "0 < ?u" by simp
    have "0 \<le> \<bar>x\<bar> / ?u" using u by simp
    then have "of_int 0 - 1 / 2 < \<bar>x\<bar> / ?u" by linarith
    then have "0 \<le> py_round (\<bar>x\<bar> / ?u)" by (rule py_round_ge)
    then have "0 \<le> of_int (py_round (\<bar>x\<bar> / ?u)) * ?u" using u by simp
    then show ?thesis using neg False by (simp add: to_double_def Let_def)
  qed
qed

lemma to_double_bounds:
  assumes "0 < x"
  shows "2 powi binade x \<le> to_double x \<and> to_double x \<le> 2 powi (binade x + 1)"
proof -
  let ?e = "binade x"
  let ?u = "(2 :: rat) powi (?e - 52)"
  have u: "0 < ?u" by simp
  note b = binade_bounds [OF assms]
  have lo_eq: "(2 :: rat) powi ?e = 2 ^ 52 * ?u"
    using powi_split [of ?e 52] by simp
  have hi_eq: "(2 :: rat) powi (?e + 1) = 2 ^ 53 * ?u"
    using powi_split [of "?e + 1" 53] by (simp add: algebra_simps)
  have "of_int (2 ^ 52) \<le> x / ?u" using b u unfolding lo_eq by (simp add: field_simps)
  then have "of_int (2 ^ 52) - 1 / 2 < x / ?u" by linarith
  then have "2 ^ 52 \<le> py_round (x / ?u)" by (rule py_round_ge)
  then have "(of_int (2 ^ 52) :: rat) \<le> of_int (py_round (x / ?u))" by (simp only: of_int_le_iff)
  then have lo: "2 ^ 52 * ?u \<le> of_int (py_round (x / ?u)) * ?u" using u by simp
  have "x / ?u < of_int (2 ^ 53)" using b u unfolding hi_eq by (simp add: field_simps)
  then have "x / ?u < of_int (2 ^ 53) + 1 / 2" by linarith
  then have "py_round (x / ?u) \<le> 2 ^ 53" by (rule py_round_le)
  then have "(of_int (py_round (x / ?u)) :: rat) \<le> of_int (2 ^ 53)" by (simp only: of_int_le_iff)
  then have hi: "of_int (py_round (x / ?u)) * ?u \<le> 2 ^ 53 * ?u" using u by simp
  show ?thesis
    unfolding to_double_pos [OF assms] lo_eq hi_eq using lo hi by simp
qed

lemma to_double_eqI:
  assumes "0 < x" and "2 powi e \<le> x" and "x < 2 powi (e + 1)"
    and "\<bar>x / 2 powi (e - 52) - of_int m\<bar> < 1 / 2"
  shows "to_double x = of_int m * 2 powi (e - 52)"
proof -
  have b: "binade x = e" using assms(1-3) by (rule binade_unique)
  let ?y = "x / 2 powi (e - 52)"
  have "?y < of_int m + 1 / 2" using assms(4) by linarith
  then have 1: "py_round ?y \<le> m" by (rule py_round_le)
  have "of_int m - 1 / 2 < ?y" using assms(4) by linarith
  then have 2: "m \<le> py_round ?y" by (rule py_round_ge)
  from 1 2 have "py_round ?y = m" by simp
  then show ?thesis by (simp add: to_double_pos [OF assms(1)] b)
qed

lemma to_double_gt_iff:
  assumes C: "2 ^ 52 \<le> C" "C < 2 ^ 53" "odd C"
  shows "(of_int C / 2 ^ 52 < to_double x) \<longleftrightarrow> (of_int C + 1 / 2 \<le> x * 2 ^ 52)"
proof -
  have c0: "(2 ^ 52 :: rat) \<le> of_int C"
  proof -
    have "(of_int (2 ^ 52) :: rat) \<le> of_int C" using C(1) by (simp only: of_int_le_iff)
    then show ?thesis by simp
  qed
  have c2: "(of_int C + 1 :: rat) \<le> 2 ^ 53"
  proof -
    have "C + 1 \<le> 2 ^ 53" using C(2) by simp
    then have "(of_int (C + 1) :: rat) \<le> of_int (2 ^ 53)" by (simp only: of_int_le_iff)
    then show ?thesis by simp
  qed
  have p52: "(0 :: rat) < 2 ^ 52" by simp
  have p53: "(2 :: rat) ^ 53 = 2 * 2 ^ 52" by simp
  have c1: "(1 :: rat) \<le> of_int C / 2 ^ 52" using c0 by simp
  have c4: "(of_int C :: rat) / 2 ^ 52 < 2" using c2 by simp
  show ?thesis
  proof (cases "0 < x")
    case False
    then have "to_double x \<le> 0" by (intro to_double_nonpos) simp
    with c1 have l: "\<not> of_int C / 2 ^ 52 < to_double x" by linarith
    have "x * 2 ^ 52 \<le> 0" using False by (simp add: mult_le_0_iff)
    with c0 p52 have r: "\<not> of_int C + 1 / 2 \<le> x * 2 ^ 52" by linarith
    from l r show ?thesis by simp
  next
    case True
    note b = binade_bounds [OF True]
    note t = to_double_bounds [OF True]
    let ?e = "binade x"
    consider "?e \<le> - 1" | "?e = 0" | "1 \<le> ?e" by linarith
    then show ?thesis
    proof cases
      case 1
      then have "(2 :: rat) powi (?e + 1) \<le> 2 powi 0"
        by (intro power_int_increasing) simp_all
      then have p: "(2 :: rat) powi (?e + 1) \<le> 1" by simp
      with t c1 have l: "\<not> of_int C / 2 ^ 52 < to_double x" by linarith
      from p b have "x < 1" by linarith
      then have "x * 2 ^ 52 < 2 ^ 52" by simp
      with c0 p52 have r: "\<not> of_int C + 1 / 2 \<le> x * 2 ^ 52" by linarith
      from l r show ?thesis by simp
    next
      case 3
      then have "(2 :: rat) powi 1 \<le> 2 powi ?e"
        by (intro power_int_increasing) simp_all
      then have p: "(2 :: rat) \<le> 2 powi ?e" by simp
      with t c4 have l: "of_int C / 2 ^ 52 < to_double x" by linarith
      from p b have "2 \<le> x" by linarith
      then have "2 * 2 ^ 52 \<le> x * 2 ^ 52" by simp
      with c2 p52 p53 have r: "of_int C + 1 / 2 \<le> x * 2 ^ 52" by linarith
      from l r show ?thesis by simp
    next
      case 2
      have u: "(2 :: rat) powi (0 - 52) = 1 / 2 ^ 52" by simp
      have td: "to_double x = of_int (py_round (x * 2 ^ 52)) / 2 ^ 52"
        unfolding to_double_pos [OF True] 2 u by simp
      have "(of_int C / 2 ^ 52 < to_double x) \<longleftrightarrow> C < py_round (x * 2 ^ 52)"
        unfolding td by (simp add: divide_less_cancel)
      also have "\<dots> \<longleftrightarrow> of_int C + 1 / 2 \<le> x * 2 ^ 52"
      proof
        assume "C < py_round (x * 2 ^ 52)"
        then have "\<not> py_round (x * 2 ^ 52) \<le> C" by simp
        then have "\<not> x * 2 ^ 52 < of_int C + 1 / 2" using py_round_le by blast
        then show "of_int C + 1 / 2 \<le> x * 2 ^ 52" by simp
      next
        assume "of_int C + 1 / 2 \<le> x * 2 ^ 52"
        then have "C + 1 \<le> py_round (x * 2 ^ 52)" using C(3) by (rule py_round_tie_odd)
        then show "C < py_round (x * 2 ^ 52)" by simp
      qed
      finally show ?thesis .
    qed
  qed
qed

lemma to_double_four_thirds: "to_double (4 / 3) = 6004799503160661 / 2 ^ 52"
  using to_double_eqI [of "4 / 3" 0 6004799503160661] by simp

lemma to_double_five_thousandths: "to_double (5 / 1000) = 5764607523034235 / 2 ^ 60"
  using to_double_eqI [of "5 / 1000" "- 8" 5764607523034235] by simp

lemma aspect_limit_value: "aspect_limit = 6027317501297513 / 2 ^ 52"
  unfolding aspect_limit_def to_double_four_thirds to_double_five_thousandths
  using to_double_eqI
    [of "6004799503160661 / 2 ^ 52 + 5764607523034235 / 2 ^ 60" 0 6027317501297513]
  by simp

lemma aspect_limit_less_iff:
  "aspect_limit < to_double x \<longleftrightarrow> 12054635002595027 / 2 ^ 53 \<le> x"
proof -
  have "(aspect_limit < to_double x) \<longleftrightarrow>
      (of_int 6027317501297513 + 1 / 2 \<le> x * 2 ^ 52)"
    unfolding aspect_limit_value
    using to_double_gt_iff [of 6027317501297513 x] by simp
  also have "\<dots> \<longleftrightarrow> 12054635002595027 / 2 ^ 53 \<le> x"
    by (simp add: field_simps)
  finally show ?thesis .
qed

lemma src_wide_iff:
  "aspect_limit < src_aspect iw ih \<longleftrightarrow>
     ih \<noteq> 0 \<and> 12054635002595027 / 2 ^ 53 \<le> (of_int iw / of_int ih :: rat)"
proof (cases "ih = 0")
  case True
  then show ?thesis by (simp add: src_aspect_def aspect_limit_value)
next
  case False
  then show ?thesis by (simp only: src_aspect_def if_True aspect_limit_less_iff simp_thms)
qed


lemma narrow_small:
  assumes "0 < ih" and "ih < 2 ^ 40" and "exact_aspect iw ih < 4 / 3 + 5 / 1000"
  shows "\<not> aspect_limit < src_aspect iw ih"
proof -
  have r: "(0 :: rat) < of_int ih" using assms(1) by simp
  have "(of_int iw / of_int ih :: rat) < 803 / 600"
    using assms(1,3) by (simp add: exact_aspect_def)
  then have "(of_int iw :: rat) * 600 < 803 * of_int ih"
    using r by (simp add: field_simps)
  then have "(of_int (iw * 600) :: rat) < of_int (803 * ih)" by simp
  then have a: "iw * 600 < 803 * ih" by (simp only: of_int_less_iff)
  have b: "ih < 1099511627776" using assms(2) by simp
  from a b have "9007199254740992 * iw < 12054635002595027 * ih" by linarith
  then have "(of_int (9007199254740992 * iw) :: rat) < of_int (12054635002595027 * ih)"
    by (simp only: of_int_less_iff)
  then have "(9007199254740992 :: rat) * of_int iw < 12054635002595027 * of_int ih" by simp
  then have "(of_int iw / of_int ih :: rat) < 12054635002595027 / 2 ^ 53"
    using r by (simp add: field_simps)
  then show ?thesis by (simp add: src_wide_iff not_le)
qed

subsection \<open>The analytic centered crop\<close>

text \<open>
  Claim C4.  For source dimensions \<open>iw\<close> and \<open>ih\<close> (positive ones in particular), the
  analytic centered crop has width \<open>min(iw, round(ih * 4/3))\<close> rounded down to even, height
  \<open>ih\<close> rounded down to even, x-offset \<open>(iw - width) / 2\<close> rounded down to even and y-offset
  \<open>(ih - height) / 2\<close> rounded down to even; so its height is \<open>ih\<close> rounded down to even and
  its width never exceeds \<open>iw\<close>.  Here \<open>round\<close> is rounding to the nearest integer.
\<close>

theorem centered_4x3_crop_spec:
  "centered_4x3_crop iw ih =
     (let w = spec_round_down_even (min iw (round (of_int (ih * 4) / (3 :: rat))));
          h = spec_round_down_even ih
      in (w, h, spec_round_down_even ((iw - w) div 2), spec_round_down_even ((ih - h) div 2)))
   \<and> fst (snd (centered_4x3_crop iw ih)) = spec_round_down_even ih
   \<and> fst (centered_4x3_crop iw ih) \<le> iw"
proof -
  let ?r = "(ih * 4 + 1) div 3"
  have "even_py (min iw ?r) \<le> min iw ?r" by (rule even_py_le)
  then have w: "even_py (min iw ?r) \<le> iw" by simp
  have r: "round (of_int (ih * 4) / (3 :: rat)) = ?r"
    by (rule round_thirds)
  have c: "centered_4x3_crop iw ih =
     (let w = spec_round_down_even (min iw (round (of_int (ih * 4) / (3 :: rat))));
          h = spec_round_down_even ih
      in (w, h, spec_round_down_even ((iw - w) div 2), spec_round_down_even ((ih - h) div 2)))"
    by (simp only: centered_4x3_crop_eq r spec_round_down_even_def even_py_eq Let_def)
  have h: "fst (snd (centered_4x3_crop iw ih)) = spec_round_down_even ih"
    by (simp only: centered_4x3_crop_eq spec_round_down_even_def even_py_eq fst_conv snd_conv)
  have w': "fst (centered_4x3_crop iw ih) \<le> iw"
    using w by (simp only: centered_4x3_crop_eq fst_conv)
  from c h w' show ?thesis by (intro conjI)
qed

subsection \<open>The encoder resolver\<close>

text \<open>
  Claim C7.  \<open>choose_encoder\<close> returns the encoder that the static table gives for the
  codec (h264, hevc, vp9, av1, mpeg2video, mpeg4, theora, prores and h263 as listed), and
  returns the codec identifier itself, as a value and not as an error, when the table has no
  entry for it: \<open>dnxhd\<close> resolves to \<open>dnxhd\<close>.
\<close>

theorem choose_encoder_table:
  "choose_encoder ''h264'' = ''libx264''
   \<and> choose_encoder ''hevc'' = ''libx265''
   \<and> choose_encoder ''vp9'' = ''libvpx-vp9''
   \<and> choose_encoder ''av1'' = ''libaom-av1''
   \<and> choose_encoder ''mpeg2video'' = ''mpeg2video''
   \<and> choose_encoder ''mpeg4'' = ''mpeg4''
   \<and> choose_encoder ''theora'' = ''libtheora''
   \<and> choose_encoder ''prores'' = ''prores_ks''
   \<and> choose_encoder ''h263'' = ''h263''
   \<and> (\<forall>enc. map_of CODEC_MAP codec = Some enc \<longrightarrow> choose_encoder codec = enc)
   \<and> (codec \<notin> fst ` set CODEC_MAP \<longrightarrow> choose_encoder codec = codec)
   \<and> choose_encoder ''dnxhd'' = ''dnxhd''"
proof -
  have unmapped: "codec \<notin> fst ` set CODEC_MAP \<longrightarrow> choose_encoder codec = codec"
    by (simp add: choose_encoder_def map_of_eq_None_iff [THEN iffD2])
  have mapped: "\<forall>enc. map_of CODEC_MAP codec = Some enc \<longrightarrow> choose_encoder codec = enc"
    by (simp add: choose_encoder_def)
  have tbl: "choose_encoder ''h264'' = ''libx264''" "choose_encoder ''hevc'' = ''libx265''"
    "choose_encoder ''vp9'' = ''libvpx-vp9''" "choose_encoder ''av1'' = ''libaom-av1''"
    "choose_encoder ''mpeg2video'' = ''mpeg2video''" "choose_encoder ''mpeg4'' = ''mpeg4''"
    "choose_encoder ''theora'' = ''libtheora''" "choose_encoder ''prores'' = ''prores_ks''"
    "choose_encoder ''h263'' = ''h263''" "choose_encoder ''dnxhd'' = ''dnxhd''"
    by (simp_all add: choose_encoder_def CODEC_MAP_def)
  from unmapped mapped tbl show ?thesis by (intro conjI)
qed

theorem choose_encoder_table_witness:
  "''dnxhd'' \<notin> fst ` set CODEC_MAP \<and> choose_encoder ''dnxhd'' = ''dnxhd''
   \<and> map_of CODEC_MAP ''hevc'' = Some ''libx265'' \<and> choose_encoder ''hevc'' = ''libx265''"
proof -
  have h1: "''dnxhd'' \<notin> fst ` set CODEC_MAP" by (simp add: CODEC_MAP_def)
  have h2: "map_of CODEC_MAP ''hevc'' = Some ''libx265''" by (simp add: CODEC_MAP_def)
  from choose_encoder_table [of "''dnxhd''"] h1 have c1: "choose_encoder ''dnxhd'' = ''dnxhd''"
    by blast
  from choose_encoder_table [of "''hevc''"] h2 have c2: "choose_encoder ''hevc'' = ''libx265''"
    by blast
  from h1 c1 h2 c2 show ?thesis by (intro conjI)
qed

subsection \<open>The consensus of the detection scan\<close>

lemma Counter_snoc: "Counter (xs @ [x]) = counter_add x (Counter xs)"
  by (simp add: Counter_def)

lemma counter_add_map:
  "distinct ks \<Longrightarrow>
   counter_add x (map (\<lambda>k. (k, c k)) ks) =
     (if x \<in> set ks then map (\<lambda>k. (k, if k = x then c k + 1 else c k)) ks
      else map (\<lambda>k. (k, c k)) ks @ [(x, 1)])"
  by (induction ks) auto

lemma Counter_eq: "Counter xs = map (\<lambda>k. (k, count_list xs k)) (rev (remdups (rev xs)))"
proof (induction xs rule: rev_induct)
  case Nil
  show ?case by (simp add: Counter_def)
next
  case (snoc x xs)
  let ?ks = "rev (remdups (rev xs))"
  have d: "distinct ?ks" by simp
  have s: "set ?ks = set xs" by simp
  show ?case
  proof (cases "x \<in> set xs")
    case True
    then show ?thesis
      using snoc counter_add_map [OF d, of x "count_list xs"] s
      by (simp add: Counter_snoc)
  next
    case False
    then show ?thesis
      using snoc counter_add_map [OF d, of x "count_list xs"] s
      by (auto simp: Counter_snoc)
  qed
qed

lemma first_max_keys:
  "(\<forall>y\<in>set pre. c y < c b) \<Longrightarrow> (\<forall>y\<in>set mid. c y \<le> c b) \<Longrightarrow>
   \<exists>m pre' post. first_max (b, c b) (map (\<lambda>k. (k, c k)) ks) = (m, c m)
      \<and> pre @ b # mid @ ks = pre' @ m # post
      \<and> (\<forall>y\<in>set pre'. c y < c m)
      \<and> (\<forall>y\<in>set (pre @ b # mid @ ks). c y \<le> c m)"
proof (induction ks arbitrary: pre b mid)
  case Nil
  have "pre @ b # mid @ [] = pre @ b # mid" by simp
  with Nil show ?case by fastforce
next
  case (Cons k ks)
  show ?case
  proof (cases "c b < c k")
    case True
    have p: "\<forall>y\<in>set (pre @ b # mid). c y < c k"
      using Cons.prems True by auto
    from Cons.IH [of "pre @ b # mid" k "[]"] p True show ?thesis by simp
  next
    case False
    have m: "\<forall>y\<in>set (mid @ [k]). c y \<le> c b"
      using Cons.prems False by auto
    from Cons.IH [of pre b "mid @ [k]"] Cons.prems(1) m False show ?thesis by simp
  qed
qed

lemma find_first: "P m \<Longrightarrow> \<forall>y\<in>set pre. \<not> P y \<Longrightarrow> find P (pre @ m # post) = Some m"
  by (induction pre) auto

lemma find_snoc:
  "find P (xs @ [x]) = (case find P xs of None \<Rightarrow> (if P x then Some x else None) | Some y \<Rightarrow> Some y)"
  by (induction xs) auto

lemma find_first_seen: "find P (rev (remdups (rev xs))) = find P xs"
proof (induction xs rule: rev_induct)
  case Nil
  show ?case by simp
next
  case (snoc x xs)
  show ?case
  proof (cases "x \<in> set xs")
    case True
    have "find P xs = None \<Longrightarrow> \<not> P x"
      using True by (auto simp: find_None_iff)
    then show ?thesis using True snoc by (auto simp: find_snoc split: option.splits)
  next
    case False
    then show ?thesis using snoc by (simp add: find_snoc)
  qed
qed

lemma most_common1_Counter:
  assumes "crops \<noteq> []"
  shows "\<exists>m. first_seen_mode crops = Some m \<and> most_common1 (Counter crops) = [(m, count_list crops m)]"
proof -
  let ?c = "count_list crops"
  let ?ks = "rev (remdups (rev crops))"
  let ?P = "\<lambda>x. \<forall>y\<in>set crops. ?c y \<le> ?c x"
  have "?ks \<noteq> []" using assms by simp
  then obtain b ks where ks: "?ks = b # ks" by (cases ?ks) auto
  have "\<exists>m pre' post. first_max (b, ?c b) (map (\<lambda>k. (k, ?c k)) ks) = (m, ?c m)
      \<and> b # ks = pre' @ m # post
      \<and> (\<forall>y\<in>set pre'. ?c y < ?c m)
      \<and> (\<forall>y\<in>set (b # ks). ?c y \<le> ?c m)"
    using first_max_keys [of "[]" ?c b "[]" ks] by simp
  then obtain m pre' post where fm: "first_max (b, ?c b) (map (\<lambda>k. (k, ?c k)) ks) = (m, ?c m)"
    and sp: "b # ks = pre' @ m # post"
    and lt: "\<forall>y\<in>set pre'. ?c y < ?c m"
    and le: "\<forall>y\<in>set (b # ks). ?c y \<le> ?c m"
    by blast
  have set_eq: "set (b # ks) = set crops" using ks [symmetric] by simp
  have Pm: "?P m" using le unfolding set_eq .
  have min: "m \<in> set crops" using sp set_eq by (metis in_set_conv_decomp)
  have nP: "\<forall>y\<in>set pre'. \<not> ?P y" using lt min by (auto simp: not_le)
  have "find ?P ?ks = Some m"
    unfolding ks sp using Pm nP by (rule find_first)
  then have fs: "first_seen_mode crops = Some m"
    by (simp add: first_seen_mode_def find_first_seen)
  have "most_common1 (Counter crops) = [(m, ?c m)]"
    using fm by (simp add: Counter_eq ks)
  with fs show ?thesis by blast
qed

lemma run_cropdetect_mode:
  assumes "crops \<noteq> []"
  shows "\<exists>w h x y. first_seen_mode crops = Some (w, h, x, y)
           \<and> run_cropdetect crops = Inr (Some (even_py w, even_py h, even_py x, even_py y))"
proof -
  from most_common1_Counter [OF assms] obtain m where
    fs: "first_seen_mode crops = Some m" and
    mc: "most_common1 (Counter crops) = [(m, count_list crops m)]" by blast
  obtain w h x y where m: "m = (w, h, x, y)" by (cases m) auto
  have "run_cropdetect crops = Inr (Some (even_py w, even_py h, even_py x, even_py y))"
    using assms mc m by (simp add: run_cropdetect_def)
  with fs m show ?thesis by blast
qed

lemma first_seen_mode_split:
  assumes "first_seen_mode xs = Some m"
  shows "\<exists>pre post. xs = pre @ m # post
           \<and> (\<forall>u\<in>set xs. count_list xs u \<le> count_list xs m)
           \<and> (\<forall>u\<in>set pre. count_list xs u < count_list xs m)"
proof -
  let ?c = "count_list xs"
  let ?P = "\<lambda>x. \<forall>y\<in>set xs. ?c y \<le> ?c x"
  from assms obtain i where i: "i < length xs" and Pm: "?P (xs ! i)" and m: "m = xs ! i"
    and before: "\<forall>j<i. \<not> ?P (xs ! j)"
    unfolding first_seen_mode_def find_Some_iff by blast
  have split: "xs = take i xs @ m # drop (Suc i) xs"
    using i m by (simp add: id_take_nth_drop)
  have lt: "\<forall>u\<in>set (take i xs). ?c u < ?c m"
  proof
    fix u assume "u \<in> set (take i xs)"
    then obtain j where j: "j < i" and u: "u = xs ! j"
      using i by (auto simp: in_set_conv_nth)
    with before have "\<not> ?P u" by simp
    then obtain z where "z \<in> set xs" and "?c u < ?c z" by (auto simp: not_le)
    with Pm m show "?c u < ?c m" by (meson less_le_trans)
  qed
  from split Pm m lt show ?thesis by blast
qed


text \<open>
  Claim C8.  When two or more distinct tuples are tied for the highest frequency (and also
  when none is), the consensus of the detection scan is the tuple with the highest frequency
  that appears first in the scanned order: every tuple before its first occurrence is
  strictly less frequent, and no tuple is more frequent.  \<open>run_cropdetect\<close> returns that
  tuple with each component made even.
\<close>

theorem run_cropdetect_first_seen:
  assumes "crops \<noteq> []"
  shows "\<exists>pre w h x y post.
           crops = pre @ (w, h, x, y) # post
         \<and> (\<forall>u\<in>set crops. count_list crops u \<le> count_list crops (w, h, x, y))
         \<and> (\<forall>u\<in>set pre. count_list crops u < count_list crops (w, h, x, y))
         \<and> first_seen_mode crops = Some (w, h, x, y)
         \<and> run_cropdetect crops = Inr (Some (even_py w, even_py h, even_py x, even_py y))"
proof -
  from run_cropdetect_mode [OF assms] obtain w h x y where
    fs: "first_seen_mode crops = Some (w, h, x, y)" and
    rc: "run_cropdetect crops = Inr (Some (even_py w, even_py h, even_py x, even_py y))"
    by blast
  from first_seen_mode_split [OF fs] obtain pre post where
    "crops = pre @ (w, h, x, y) # post"
    "\<forall>u\<in>set crops. count_list crops u \<le> count_list crops (w, h, x, y)"
    "\<forall>u\<in>set pre. count_list crops u < count_list crops (w, h, x, y)" by blast
  with fs rc show ?thesis by blast
qed

theorem run_cropdetect_first_seen_witness:
  "([(1440, 1080, 240, 0), (1436, 1080, 242, 0), (1436, 1080, 242, 0), (1440, 1080, 240, 0)]
       :: crop list) \<noteq> []
   \<and> count_list
       ([(1440, 1080, 240, 0), (1436, 1080, 242, 0), (1436, 1080, 242, 0), (1440, 1080, 240, 0)]
       :: crop list) (1440, 1080, 240, 0)
     = count_list
       ([(1440, 1080, 240, 0), (1436, 1080, 242, 0), (1436, 1080, 242, 0), (1440, 1080, 240, 0)]
       :: crop list) (1436, 1080, 242, 0)
   \<and> run_cropdetect
       ([(1440, 1080, 240, 0), (1436, 1080, 242, 0), (1436, 1080, 242, 0), (1440, 1080, 240, 0)]
       :: crop list)
     = Inr (Some (1440, 1080, 240, 0))"
proof -
  let ?crops = "[(1440, 1080, 240, 0), (1436, 1080, 242, 0), (1436, 1080, 242, 0),
                 (1440, 1080, 240, 0)] :: crop list"
  have ne: "?crops \<noteq> []" by simp
  have tie: "count_list ?crops (1440, 1080, 240, 0) = count_list ?crops (1436, 1080, 242, 0)"
    by simp
  have fs: "first_seen_mode ?crops = Some (1440, 1080, 240, 0)"
    by (simp add: first_seen_mode_def)
  from run_cropdetect_first_seen [OF ne] obtain w h x y where
    "first_seen_mode ?crops = Some (w, h, x, y)" and
    rc: "run_cropdetect ?crops = Inr (Some (even_py w, even_py h, even_py x, even_py y))"
    by blast
  with fs have "w = 1440" "h = 1080" "x = 240" "y = 0" by simp_all
  with rc have "run_cropdetect ?crops = Inr (Some (1440, 1080, 240, 0))"
    by (simp add: even_py_def)
  with ne tie show ?thesis by blast
qed

lemma first_seen_mode_nonempty: "first_seen_mode xs = Some m \<Longrightarrow> xs \<noteq> []"
  by (auto simp: first_seen_mode_def)

lemma run_cropdetect_Some:
  assumes "first_seen_mode crops = Some (w, h, x, y)"
  shows "run_cropdetect crops = Inr (Some (even_py w, even_py h, even_py x, even_py y))"
  using run_cropdetect_mode [OF first_seen_mode_nonempty [OF assms]] assms by auto

lemma detect_crop_mode:
  assumes "use_cropdetect a" and "first_seen_mode crops = Some (w, h, x, y)"
  shows "detect_crop a iw crops =
     (if even_py h = 0 then Inl ZeroDivisionError
      else if \<bar>of_int (even_py w) / of_int (even_py h) - 4 / 3\<bar> < (1 / 100 :: rat)
      then Inr (Some (even_py (round (of_int (even_py h * 4) / (3 :: rat))), even_py h,
                      even_py ((iw - even_py (round (of_int (even_py h * 4) / (3 :: rat)))) div 2),
                      even_py y))
      else Inr (Some (even_py w, even_py h, even_py x, even_py y)))"
  using assms(1) run_cropdetect_Some [OF assms(2)]
  by (simp only: detect_crop_def py_round_is_round Let_def if_True sum.case option.case prod.case)




subsection \<open>The components of a crop\<close>

lemma even_py_even: "even (even_py n)"
  by (simp add: even_py_eq)

lemma even_py_nonneg: "0 \<le> n \<Longrightarrow> 0 \<le> even_py n"
  by (simp add: even_py_eq)

lemma even_py_center: "0 \<le> d \<Longrightarrow> 0 \<le> even_py (d div 2) \<and> even_py (d div 2) \<le> d"
proof -
  assume d: "0 \<le> d"
  then have "0 \<le> d div 2" by simp
  then have a: "0 \<le> even_py (d div 2)" by (rule even_py_nonneg)
  have "even_py (d div 2) \<le> d div 2" by (rule even_py_le)
  also have "\<dots> \<le> d" using d by simp
  finally show ?thesis using a by simp
qed

lemma centered_4x3_crop_ok:
  assumes "0 < iw" and "0 < ih"
  shows "spec_crop_ok iw ih (centered_4x3_crop iw ih)"
proof -
  let ?w = "even_py (min iw ((ih * 4 + 1) div 3))"
  let ?h = "even_py ih"
  have r: "0 \<le> (ih * 4 + 1) div 3" using assms(2) by simp
  have w0: "0 \<le> ?w" using assms(1) r by (intro even_py_nonneg) simp
  have "?w \<le> min iw ((ih * 4 + 1) div 3)" by (rule even_py_le)
  then have w1: "?w \<le> iw" by simp
  have h0: "0 \<le> ?h" using assms(2) by (intro even_py_nonneg) simp
  have h1: "?h \<le> ih" by (rule even_py_le)
  from w1 have x: "0 \<le> even_py ((iw - ?w) div 2) \<and> even_py ((iw - ?w) div 2) \<le> iw - ?w"
    by (intro even_py_center) simp
  from h1 have y: "0 \<le> even_py ((ih - ?h) div 2) \<and> even_py ((ih - ?h) div 2) \<le> ih - ?h"
    by (intro even_py_center) simp
  show ?thesis
    unfolding centered_4x3_crop_eq spec_crop_ok_def prod.case
    using w0 h0 x y by (simp add: even_py_even)
qed

lemma detect_crop_None:
  "\<not> use_cropdetect a \<or> crops = [] \<Longrightarrow> detect_crop a iw crops = Inr None"
  by (auto simp: detect_crop_def run_cropdetect_def)

lemma detect_crop_result:
  assumes "detect_crop a iw crops = Inr (Some (w, h, x, y))"
  shows "use_cropdetect a \<and>
    (\<exists>w0 h0 x0 y0. first_seen_mode crops = Some (w0, h0, x0, y0)
       \<and> h = even_py h0 \<and> y = even_py y0
       \<and> ((w = even_py w0 \<and> x = even_py x0)
          \<or> (w = even_py (round (of_int (even_py h0 * 4) / (3 :: rat)))
              \<and> x = even_py ((iw - w) div 2))))"
proof -
  have u: "use_cropdetect a"
    using assms by (auto simp: detect_crop_def split: if_splits)
  have ne: "crops \<noteq> []"
    using assms detect_crop_None [of a crops iw] by auto
  from run_cropdetect_mode [OF ne] obtain w0 h0 x0 y0
    where fs: "first_seen_mode crops = Some (w0, h0, x0, y0)" by blast
  from assms have
    "h = even_py h0 \<and> y = even_py y0
       \<and> ((w = even_py w0 \<and> x = even_py x0)
          \<or> (w = even_py (round (of_int (even_py h0 * 4) / (3 :: rat)))
              \<and> x = even_py ((iw - w) div 2)))"
    unfolding detect_crop_mode [OF u fs] by (auto split: if_splits)
  with u fs show ?thesis by blast
qed

lemma decide_crop_result:
  assumes "decide_crop a iw ih crops = Inr (Some c)"
  shows "detect_crop a iw crops = Inr (Some c)
       \<or> (detect_crop a iw crops = Inr None \<and> c = centered_4x3_crop iw ih
           \<and> aspect_limit < src_aspect iw ih)"
  using assms
  by (auto simp: decide_crop_def split: sum.splits option.splits if_splits)

lemma round_four_thirds_nonneg: "0 \<le> n \<Longrightarrow> 0 \<le> round (of_int (n * 4) / (3 :: rat))"
  by (simp only: round_thirds)

lemma py_round_thirds_numeral: "py_round (numeral k / 3) = (numeral k + 1) div 3"
  using py_round_thirds [of "numeral k"] by simp

text \<open>
  Claim C1, as amended.  Every crop that either mode produces has four even components.
  The analytic centered crop of a source with positive dimensions is also non-negative and
  inside the source frame.  The detection scan does not check the detector's suggestion
  against the source: its crop is non-negative and inside the source frame whenever the
  consensus tuple reported by the scan is, and the produced width is at most the source
  width (which is so whenever the width is not snapped to 4:3).
\<close>

theorem decide_crop_components:
  assumes "decide_crop a iw ih crops = Inr (Some (w, h, x, y))"
  shows "even w \<and> even h \<and> even x \<and> even y
    \<and> ((\<not> use_cropdetect a \<or> crops = []) \<and> 0 < iw \<and> 0 < ih
          \<longrightarrow> spec_crop_ok iw ih (w, h, x, y))
    \<and> (use_cropdetect a
        \<and> (\<exists>w0 h0 x0 y0. first_seen_mode crops = Some (w0, h0, x0, y0)
               \<and> 0 \<le> w0 \<and> 0 \<le> h0 \<and> 0 \<le> x0 \<and> 0 \<le> y0
               \<and> x0 + w0 \<le> iw \<and> y0 + h0 \<le> ih)
        \<and> w \<le> iw
          \<longrightarrow> spec_crop_ok iw ih (w, h, x, y))"
proof -
  note res = decide_crop_result [OF assms]
  have ev: "even w \<and> even h \<and> even x \<and> even y"
  proof -
    from res show ?thesis
    proof
      assume "detect_crop a iw crops = Inr (Some (w, h, x, y))"
      from detect_crop_result [OF this] show ?thesis
        by (auto simp: even_py_even)
    next
      assume "detect_crop a iw crops = Inr None \<and> (w, h, x, y) = centered_4x3_crop iw ih
           \<and> aspect_limit < src_aspect iw ih"
      then have "(w, h, x, y) = centered_4x3_crop iw ih" by simp
      then show ?thesis
        unfolding centered_4x3_crop_eq by (simp add: even_py_even)
    qed
  qed
  have an: "(\<not> use_cropdetect a \<or> crops = []) \<and> 0 < iw \<and> 0 < ih
          \<longrightarrow> spec_crop_ok iw ih (w, h, x, y)"
  proof
    assume h: "(\<not> use_cropdetect a \<or> crops = []) \<and> 0 < iw \<and> 0 < ih"
    then have "detect_crop a iw crops = Inr None" by (intro detect_crop_None) simp
    with res have "(w, h, x, y) = centered_4x3_crop iw ih" by simp
    with h show "spec_crop_ok iw ih (w, h, x, y)"
      using centered_4x3_crop_ok [of iw ih] by simp
  qed
  have de: "use_cropdetect a
        \<and> (\<exists>w0 h0 x0 y0. first_seen_mode crops = Some (w0, h0, x0, y0)
               \<and> 0 \<le> w0 \<and> 0 \<le> h0 \<and> 0 \<le> x0 \<and> 0 \<le> y0
               \<and> x0 + w0 \<le> iw \<and> y0 + h0 \<le> ih)
        \<and> w \<le> iw
          \<longrightarrow> spec_crop_ok iw ih (w, h, x, y)"
  proof
    assume h: "use_cropdetect a
        \<and> (\<exists>w0 h0 x0 y0. first_seen_mode crops = Some (w0, h0, x0, y0)
               \<and> 0 \<le> w0 \<and> 0 \<le> h0 \<and> 0 \<le> x0 \<and> 0 \<le> y0
               \<and> x0 + w0 \<le> iw \<and> y0 + h0 \<le> ih)
        \<and> w \<le> iw"
    then obtain w0 h0 x0 y0 where fs: "first_seen_mode crops = Some (w0, h0, x0, y0)"
      and nn: "0 \<le> w0" "0 \<le> h0" "0 \<le> x0" "0 \<le> y0"
      and fr: "x0 + w0 \<le> iw" "y0 + h0 \<le> ih" and wle: "w \<le> iw" and u: "use_cropdetect a"
      by blast
    have "crops \<noteq> []" using fs by (rule first_seen_mode_nonempty)
    then have "detect_crop a iw crops \<noteq> Inr None"
      using u fs by (auto simp: detect_crop_mode split: if_splits)
    with res have "detect_crop a iw crops = Inr (Some (w, h, x, y))" by blast
    from detect_crop_result [OF this] fs have hy: "h = even_py h0" "y = even_py y0"
      and wx: "(w = even_py w0 \<and> x = even_py x0)
          \<or> (w = even_py (round (of_int (even_py h0 * 4) / (3 :: rat)))
              \<and> x = even_py ((iw - w) div 2))"
      by auto
    have h0': "0 \<le> h" "0 \<le> y" using hy nn by (simp_all add: even_py_nonneg)
    have yh: "y + h \<le> ih"
      using hy fr(2) even_py_le [of h0] even_py_le [of y0] by linarith
    from wx have "0 \<le> w \<and> 0 \<le> x \<and> x + w \<le> iw"
    proof
      assume e: "w = even_py w0 \<and> x = even_py x0"
      then show ?thesis
        using nn fr(1) even_py_le [of w0] even_py_le [of x0]
          even_py_nonneg [of w0] even_py_nonneg [of x0] by linarith
    next
      assume e: "w = even_py (round (of_int (even_py h0 * 4) / (3 :: rat)))
              \<and> x = even_py ((iw - w) div 2)"
      have "0 \<le> even_py h0" using nn(2) by (rule even_py_nonneg)
      then have "0 \<le> round (of_int (even_py h0 * 4) / (3 :: rat))"
        by (rule round_four_thirds_nonneg)
      then have w0': "0 \<le> w" using e by (simp add: even_py_nonneg)
      from wle have "0 \<le> even_py ((iw - w) div 2) \<and> even_py ((iw - w) div 2) \<le> iw - w"
        by (intro even_py_center) simp
      with e w0' show ?thesis by simp
    qed
    with ev h0' yh show "spec_crop_ok iw ih (w, h, x, y)"
      by (simp add: spec_crop_ok_def)
  qed
  from ev an de show ?thesis by (intro conjI) blast+
qed

theorem decide_crop_components_witness:
  "decide_crop \<lparr>use_cropdetect = False, crf = None, preset = ''medium'', dry_run = False\<rparr>
     1920 1080 [] = Inr (Some (1440, 1080, 240, 0))
   \<and> spec_crop_ok 1920 1080 (1440, 1080, 240, 0)
   \<and> decide_crop \<lparr>use_cropdetect = True, crf = None, preset = ''medium'', dry_run = False\<rparr>
     1920 1080 [(1424, 1072, 248, 4)] = Inr (Some (1428, 1072, 246, 4))
   \<and> first_seen_mode [(1424, 1072, 248, 4) :: crop] = Some (1424, 1072, 248, 4)
   \<and> spec_crop_ok 1920 1080 (1428, 1072, 246, 4)"
proof -
  let ?a1 = "\<lparr>use_cropdetect = False, crf = None, preset = ''medium'', dry_run = False\<rparr>"
  let ?a2 = "\<lparr>use_cropdetect = True, crf = None, preset = ''medium'', dry_run = False\<rparr>"
  have d1: "decide_crop ?a1 1920 1080 [] = Inr (Some (1440, 1080, 240, 0))"
    by (simp add: decide_crop_def detect_crop_def src_wide_iff centered_4x3_crop_eq
        even_py_def)
  have d2: "decide_crop ?a2 1920 1080 [(1424, 1072, 248, 4)] = Inr (Some (1428, 1072, 246, 4))"
    by (simp add: decide_crop_def detect_crop_def run_cropdetect_def Counter_def
        py_round_thirds_numeral even_py_def)
  have fs: "first_seen_mode [(1424, 1072, 248, 4) :: crop] = Some (1424, 1072, 248, 4)"
    by (simp add: first_seen_mode_def)
  have h1: "(\<not> use_cropdetect ?a1 \<or> ([] :: crop list) = []) \<and> (0 :: int) < 1920 \<and> (0 :: int) < 1080"
    by simp
  have h2: "use_cropdetect ?a2
      \<and> (\<exists>w0 h0 x0 y0. first_seen_mode [(1424, 1072, 248, 4) :: crop] = Some (w0, h0, x0, y0)
             \<and> 0 \<le> w0 \<and> 0 \<le> h0 \<and> 0 \<le> x0 \<and> 0 \<le> y0
             \<and> x0 + w0 \<le> 1920 \<and> y0 + h0 \<le> 1080)
      \<and> (1428 :: int) \<le> 1920"
    using fs by simp
  from decide_crop_components [OF d1] h1
  have c1: "spec_crop_ok 1920 1080 (1440, 1080, 240, 0)" by blast
  from decide_crop_components [OF d2] h2
  have c2: "spec_crop_ok 1920 1080 (1428, 1072, 246, 4)" by blast
  from d1 c1 d2 fs c2 show ?thesis by (intro conjI)
qed

text \<open>
  Claim C1 as stated fails: the detector can report negative sizes, as it does when every
  scanned frame is black.  With the one suggestion \<open>crop=-1904:-1072:1914:1078\<close> on a
  1920 by 1080 source, the crop that the detection-scan mode produces is that tuple, with a
  negative width and height.
\<close>

theorem crop_invariant_counterexample:
  "decide_crop \<lparr>use_cropdetect = True, crf = None, preset = ''medium'', dry_run = False\<rparr>
     1920 1080 [(- 1904, - 1072, 1914, 1078)]
     = Inr (Some (- 1904, - 1072, 1914, 1078))
   \<and> \<not> spec_crop_ok 1920 1080 (- 1904, - 1072, 1914, 1078)"
  by (simp add: decide_crop_def detect_crop_def run_cropdetect_def Counter_def even_py_def
      spec_crop_ok_def)

subsection \<open>The plan of one file\<close>

lemma str_int_18: "str_int 18 = ''18''"
  by (simp add: str_int_def str_nat.simps digit_char_def)

lemma str_int_28: "str_int 28 = ''28''"
  by (simp add: str_int_def str_nat.simps digit_char_def)

lemma plan_file_probed:
  assumes "probed e i v iw ih"
  shows "plan_file a src e =
     (case decide_crop a iw ih (cropdetect_crops e) of
        Inl err \<Rightarrow> Inl err
      | Inr None \<Rightarrow> Inr (Run (stream_copy_cmd src (dst_path e)))
      | Inr (Some crop) \<Rightarrow>
          Inr (Run (build_ffmpeg_cmd src (dst_path e) crop
                      (choose_encoder (case codec_name v of None \<Rightarrow> [] | Some c \<Rightarrow> c))
                      (if crf a = None then source_bitrate i v else None)
                      (crf a) (preset a))))"
  using assms
  by (simp add: probed_def plan_file_def ffprobe_json_def Let_def
      split: sum.splits option.splits)

lemma source_bitrate_probed:
  "source_bitrate i v =
     (case probed_bitrate i v of Some b \<Rightarrow> if b < 100000 then None else Some b | None \<Rightarrow> None)"
  by (simp add: source_bitrate_def probed_bitrate_def Let_def split: option.splits)

lemma quality_args_spec:
  "quality_args enc (if requested = None then source_bitrate i v else None) requested =
     quality_options (spec_quality enc (probed_bitrate i v) requested)"
proof (cases requested)
  case (Some V)
  then show ?thesis by (simp add: quality_args_def spec_quality_def)
next
  case None
  show ?thesis
  proof (cases "probed_bitrate i v")
    case pn: None
    then show ?thesis
      using None
      by (simp add: quality_args_def spec_quality_def spec_fallback_quality_def
          source_bitrate_probed str_int_18 str_int_28)
  next
    case (Some b)
    then show ?thesis
      using None
      by (simp add: quality_args_def spec_quality_def spec_fallback_quality_def
          source_bitrate_probed str_int_18 str_int_28 mult.commute)
  qed
qed

lemmas str_eval = str_int_def str_nat.simps digit_char_def

text \<open>
  Claim C5.  For every plan that re-encodes, the quality options follow the decision table in
  order: a CRF value that was asked for is used and overrides bitrate parity; otherwise a
  known bitrate of at least 100,000 bits per second gives bitrate parity with the source's
  bitrate as target and as max-rate and twice the target as buffer size; otherwise the
  fallback CRF is used, 18 for libx264 and libx265 and 28 for the others, a bitrate below
  100,000 counting as unknown; and with a CRF and the encoder libvpx-vp9 or libaom-av1 the
  bitrate target is also set to 0.
\<close>

theorem plan_quality_decision_table:
  assumes "probed e i v iw ih"
    and "decide_crop a iw ih (cropdetect_crops e) = Inr (Some (w, h, x, y))"
  shows "plan_file a src e =
     (let enc = choose_encoder (case codec_name v of None \<Rightarrow> [] | Some c \<Rightarrow> c)
      in Inr (Run ([''ffmpeg'', ''-stats'', ''-loglevel'', ''level+info'', ''-y'', ''-i'', src,
                    ''-map'', ''0'', ''-map_metadata'', ''0'', ''-map_chapters'', ''0'',
                    ''-c:a'', ''copy'', ''-c:s'', ''copy'', ''-c:d'', ''copy'', ''-c:t'', ''copy'',
                    ''-c:v'', enc,
                    ''-vf'', ''crop='' @ str_int w @ '':'' @ str_int h @ '':'' @ str_int x
                                @ '':'' @ str_int y,
                    ''-preset'', preset a]
                   @ quality_options (spec_quality enc (probed_bitrate i v) (crf a))
                   @ [''-movflags'', ''use_metadata_tags+faststart'', dst_path e])))"
  by (simp add: plan_file_probed [OF assms(1)] assms(2) build_ffmpeg_cmd_def Let_def
      quality_args_spec)

theorem plan_quality_decision_table_witness:
  "let v = \<lparr>codec_type = Some ''video'', codec_name = Some ''h264'', width = Numeric 1920,
             height = Numeric 1080, bit_rate = Numeric 4000000\<rparr>;
       i = \<lparr>streams = [v], format_bit_rate = Absent\<rparr>;
       e = \<lparr>src_exists = True, ffprobe_rc = 0, ffprobe_out = Some i, cropdetect_crops = [],
             dst_path = ''in.4x3.mp4'', ffmpeg_rc = 0\<rparr>;
       a = \<lparr>use_cropdetect = False, crf = None, preset = ''medium'', dry_run = False\<rparr>
   in probed e i v 1920 1080
      \<and> decide_crop a 1920 1080 (cropdetect_crops e) = Inr (Some (1440, 1080, 240, 0))
      \<and> plan_file a ''in.mp4'' e =
          Inr (Run [''ffmpeg'', ''-stats'', ''-loglevel'', ''level+info'', ''-y'', ''-i'', ''in.mp4'',
                    ''-map'', ''0'', ''-map_metadata'', ''0'', ''-map_chapters'', ''0'',
                    ''-c:a'', ''copy'', ''-c:s'', ''copy'', ''-c:d'', ''copy'', ''-c:t'', ''copy'',
                    ''-c:v'', ''libx264'', ''-vf'', ''crop=1440:1080:240:0'',
                    ''-preset'', ''medium'',
                    ''-b:v'', ''4000000'', ''-maxrate'', ''4000000'', ''-bufsize'', ''8000000'',
                    ''-movflags'', ''use_metadata_tags+faststart'', ''in.4x3.mp4''])"
proof -
  let ?v = "\<lparr>codec_type = Some ''video'', codec_name = Some ''h264'', width = Numeric 1920,
             height = Numeric 1080, bit_rate = Numeric 4000000\<rparr>"
  let ?i = "\<lparr>streams = [?v], format_bit_rate = Absent\<rparr>"
  let ?e = "\<lparr>src_exists = True, ffprobe_rc = 0, ffprobe_out = Some ?i, cropdetect_crops = [],
             dst_path = ''in.4x3.mp4'', ffmpeg_rc = 0\<rparr>"
  let ?a = "\<lparr>use_cropdetect = False, crf = None, preset = ''medium'', dry_run = False\<rparr>"
  have p: "probed ?e ?i ?v 1920 1080"
    by (simp add: probed_def get_video_stream_def)
  have d: "decide_crop ?a 1920 1080 (cropdetect_crops ?e) = Inr (Some (1440, 1080, 240, 0))"
    by (simp add: decide_crop_def detect_crop_def src_wide_iff centered_4x3_crop_eq
        even_py_def)
  have q: "quality_options (spec_quality ''libx264'' (probed_bitrate ?i ?v) None) =
      [''-b:v'', ''4000000'', ''-maxrate'', ''4000000'', ''-bufsize'', ''8000000'']"
    by (simp add: spec_quality_def probed_bitrate_def str_eval)
  have c: "choose_encoder ''h264'' = ''libx264''"
    by (simp add: choose_encoder_def CODEC_MAP_def)
  have s: "str_int 1440 = ''1440''" "str_int 1080 = ''1080''" "str_int 240 = ''240''"
    "str_int 0 = ''0''"
    by (simp_all add: str_eval)
  from plan_quality_decision_table [OF p d, of "''in.mp4''"]
  have "plan_file ?a ''in.mp4'' ?e =
          Inr (Run [''ffmpeg'', ''-stats'', ''-loglevel'', ''level+info'', ''-y'', ''-i'', ''in.mp4'',
                    ''-map'', ''0'', ''-map_metadata'', ''0'', ''-map_chapters'', ''0'',
                    ''-c:a'', ''copy'', ''-c:s'', ''copy'', ''-c:d'', ''copy'', ''-c:t'', ''copy'',
                    ''-c:v'', ''libx264'', ''-vf'', ''crop=1440:1080:240:0'',
                    ''-preset'', ''medium'',
                    ''-b:v'', ''4000000'', ''-maxrate'', ''4000000'', ''-bufsize'', ''8000000'',
                    ''-movflags'', ''use_metadata_tags+faststart'', ''in.4x3.mp4''])"
    by (simp add: c q s Let_def)
  with p d show ?thesis by (simp only: Let_def)
qed



lemma decide_crop_no_scan:
  assumes "\<not> use_cropdetect a \<or> crops = []"
  shows "decide_crop a iw ih crops =
     (if aspect_limit < src_aspect iw ih then Inr (Some (centered_4x3_crop iw ih))
      else Inr None)"
  by (simp add: decide_crop_def detect_crop_None [OF assms])


text \<open>
  Claim C6, as amended.  When the source aspect ratio, as the program computes it in double
  arithmetic, is not above the double \<open>(4/3) + 0.005\<close> (in particular when the exact
  ratio is below 4/3 + 0.005 and the height is positive and below \<open>2 ^ 40\<close>), and the
  detection scan is disabled or yields no crop suggestion, the decision is ``no crop
  needed'' and the plan is a pure stream copy: every stream mapped and copied, global
  metadata and chapters kept, and no video encoder, crop filter, preset or quality option
  among its arguments.
\<close>

theorem no_crop_is_stream_copy:
  assumes "probed e i v iw ih"
    and "\<not> use_cropdetect a \<or> cropdetect_crops e = []"
    and "src_aspect iw ih \<le> aspect_limit
         \<or> (0 < ih \<and> ih < 2 ^ 40 \<and> exact_aspect iw ih < 4 / 3 + 5 / 1000)"
  shows "decide_crop a iw ih (cropdetect_crops e) = Inr None
    \<and> plan_file a src e = Inr (Run (stream_copy_cmd src (dst_path e)))
    \<and> stream_copy_cmd src (dst_path e) =
        [''ffmpeg'', ''-stats'', ''-loglevel'', ''level+info'', ''-y'', ''-i''] @ [src]
        @ [''-map'', ''0'', ''-map_metadata'', ''0'', ''-map_chapters'', ''0'', ''-c'', ''copy'',
           ''-movflags'', ''use_metadata_tags+faststart''] @ [dst_path e]
    \<and> set ([''ffmpeg'', ''-stats'', ''-loglevel'', ''level+info'', ''-y'', ''-i'']
            @ [''-map'', ''0'', ''-map_metadata'', ''0'', ''-map_chapters'', ''0'', ''-c'', ''copy'',
               ''-movflags'', ''use_metadata_tags+faststart''])
        \<inter> {''-c:v'', ''-vf'', ''-crf'', ''-b:v'', ''-maxrate'', ''-bufsize'', ''-preset''} = {}"
proof -
  have nw: "\<not> aspect_limit < src_aspect iw ih"
    using assms(3)
  proof
    assume "src_aspect iw ih \<le> aspect_limit"
    then show ?thesis by simp
  next
    assume "0 < ih \<and> ih < 2 ^ 40 \<and> exact_aspect iw ih < 4 / 3 + 5 / 1000"
    then show ?thesis by (intro narrow_small) simp_all
  qed
  have d: "decide_crop a iw ih (cropdetect_crops e) = Inr None"
    using nw by (simp add: decide_crop_no_scan [OF assms(2)])
  have p: "plan_file a src e = Inr (Run (stream_copy_cmd src (dst_path e)))"
    by (simp add: plan_file_probed [OF assms(1)] d)
  have c: "stream_copy_cmd src (dst_path e) =
        [''ffmpeg'', ''-stats'', ''-loglevel'', ''level+info'', ''-y'', ''-i''] @ [src]
        @ [''-map'', ''0'', ''-map_metadata'', ''0'', ''-map_chapters'', ''0'', ''-c'', ''copy'',
           ''-movflags'', ''use_metadata_tags+faststart''] @ [dst_path e]"
    by (simp add: stream_copy_cmd_def)
  have n: "set ([''ffmpeg'', ''-stats'', ''-loglevel'', ''level+info'', ''-y'', ''-i'']
            @ [''-map'', ''0'', ''-map_metadata'', ''0'', ''-map_chapters'', ''0'', ''-c'', ''copy'',
               ''-movflags'', ''use_metadata_tags+faststart''])
        \<inter> {''-c:v'', ''-vf'', ''-crf'', ''-b:v'', ''-maxrate'', ''-bufsize'', ''-preset''} = {}"
    by simp
  from d p c n show ?thesis by (intro conjI)
qed

theorem no_crop_is_stream_copy_witness:
  "let v = \<lparr>codec_type = Some ''video'', codec_name = Some ''h264'', width = Numeric 1280,
             height = Numeric 960, bit_rate = Numeric 4000000\<rparr>;
       i = \<lparr>streams = [v], format_bit_rate = Absent\<rparr>;
       e = \<lparr>src_exists = True, ffprobe_rc = 0, ffprobe_out = Some i, cropdetect_crops = [],
             dst_path = ''in.4x3.mp4'', ffmpeg_rc = 0\<rparr>;
       a = \<lparr>use_cropdetect = True, crf = Some 20, preset = ''medium'', dry_run = False\<rparr>
   in probed e i v 1280 960
      \<and> cropdetect_crops e = []
      \<and> src_aspect 1280 960 \<le> aspect_limit
      \<and> (0 :: int) < 960 \<and> (960 :: int) < 2 ^ 40
      \<and> exact_aspect 1280 960 < 4 / 3 + 5 / 1000
      \<and> plan_file a ''in.mp4'' e =
          Inr (Run [''ffmpeg'', ''-stats'', ''-loglevel'', ''level+info'', ''-y'', ''-i'', ''in.mp4'',
                    ''-map'', ''0'', ''-map_metadata'', ''0'', ''-map_chapters'', ''0'',
                    ''-c'', ''copy'', ''-movflags'', ''use_metadata_tags+faststart'',
                    ''in.4x3.mp4''])"
proof -
  let ?v = "\<lparr>codec_type = Some ''video'', codec_name = Some ''h264'', width = Numeric 1280,
             height = Numeric 960, bit_rate = Numeric 4000000\<rparr>"
  let ?i = "\<lparr>streams = [?v], format_bit_rate = Absent\<rparr>"
  let ?e = "\<lparr>src_exists = True, ffprobe_rc = 0, ffprobe_out = Some ?i, cropdetect_crops = [],
             dst_path = ''in.4x3.mp4'', ffmpeg_rc = 0\<rparr>"
  let ?a = "\<lparr>use_cropdetect = True, crf = Some 20, preset = ''medium'', dry_run = False\<rparr>"
  have h1: "probed ?e ?i ?v 1280 960" by (simp add: probed_def get_video_stream_def)
  have h2: "cropdetect_crops ?e = []" by simp
  have h3: "src_aspect 1280 960 \<le> aspect_limit"
    by (simp add: src_wide_iff flip: not_less)
  have h4: "(0 :: int) < 960 \<and> (960 :: int) < 2 ^ 40
      \<and> exact_aspect 1280 960 < 4 / 3 + 5 / 1000"
    by (simp add: exact_aspect_def)
  have g2: "\<not> use_cropdetect ?a \<or> cropdetect_crops ?e = []" by simp
  have g3: "src_aspect 1280 960 \<le> aspect_limit
         \<or> ((0 :: int) < 960 \<and> (960 :: int) < 2 ^ 40 \<and> exact_aspect 1280 960 < 4 / 3 + 5 / 1000)"
    using h4 by blast
  from no_crop_is_stream_copy [OF h1 g2 g3, of "''in.mp4''"]
  have "plan_file ?a ''in.mp4'' ?e =
          Inr (Run [''ffmpeg'', ''-stats'', ''-loglevel'', ''level+info'', ''-y'', ''-i'', ''in.mp4'',
                    ''-map'', ''0'', ''-map_metadata'', ''0'', ''-map_chapters'', ''0'',
                    ''-c'', ''copy'', ''-movflags'', ''use_metadata_tags+faststart'',
                    ''in.4x3.mp4''])"
    by simp
  with h1 h2 h3 h4 show ?thesis unfolding Let_def by blast
qed

text \<open>
  Claim C6 as stated fails at an aspect ratio of exactly 4/3 + 0.005: for a source of 803
  by 600 pixels with the scan disabled, the quotient 803/600 rounds to a double above the
  double \<open>(4/3) + 0.005\<close>, and the plan crops to 800 by 600 and re-encodes the video.
\<close>

theorem aspect_boundary_counterexample:
  "exact_aspect 803 600 \<le> 4 / 3 + 5 / 1000
   \<and> aspect_limit < src_aspect 803 600
   \<and> plan_file \<lparr>use_cropdetect = False, crf = None, preset = ''medium'', dry_run = False\<rparr>
        ''in.mp4''
        \<lparr>src_exists = True, ffprobe_rc = 0,
         ffprobe_out = Some \<lparr>streams = [\<lparr>codec_type = Some ''video'',
                                           codec_name = Some ''h264'', width = Numeric 803,
                                           height = Numeric 600, bit_rate = Absent\<rparr>],
                               format_bit_rate = Absent\<rparr>,
         cropdetect_crops = [], dst_path = ''in.4x3.mp4'', ffmpeg_rc = 0\<rparr>
      = Inr (Run [''ffmpeg'', ''-stats'', ''-loglevel'', ''level+info'', ''-y'', ''-i'', ''in.mp4'',
                  ''-map'', ''0'', ''-map_metadata'', ''0'', ''-map_chapters'', ''0'',
                  ''-c:a'', ''copy'', ''-c:s'', ''copy'', ''-c:d'', ''copy'', ''-c:t'', ''copy'',
                  ''-c:v'', ''libx264'', ''-vf'', ''crop=800:600:0:0'',
                  ''-preset'', ''medium'', ''-crf'', ''18'',
                  ''-movflags'', ''use_metadata_tags+faststart'', ''in.4x3.mp4''])"
proof -
  have e: "exact_aspect 803 600 \<le> 4 / 3 + 5 / 1000" by (simp add: exact_aspect_def)
  have w: "aspect_limit < src_aspect 803 600" by (simp add: src_wide_iff)
  have d: "decide_crop \<lparr>use_cropdetect = False, crf = None, preset = ''medium'',
                         dry_run = False\<rparr> 803 600 [] = Inr (Some (800, 600, 0, 0))"
    by (simp add: decide_crop_def detect_crop_def w centered_4x3_crop_eq even_py_def)
  have p: "plan_file \<lparr>use_cropdetect = False, crf = None, preset = ''medium'', dry_run = False\<rparr>
        ''in.mp4''
        \<lparr>src_exists = True, ffprobe_rc = 0,
         ffprobe_out = Some \<lparr>streams = [\<lparr>codec_type = Some ''video'',
                                           codec_name = Some ''h264'', width = Numeric 803,
                                           height = Numeric 600, bit_rate = Absent\<rparr>],
                               format_bit_rate = Absent\<rparr>,
         cropdetect_crops = [], dst_path = ''in.4x3.mp4'', ffmpeg_rc = 0\<rparr>
      = Inr (Run [''ffmpeg'', ''-stats'', ''-loglevel'', ''level+info'', ''-y'', ''-i'', ''in.mp4'',
                  ''-map'', ''0'', ''-map_metadata'', ''0'', ''-map_chapters'', ''0'',
                  ''-c:a'', ''copy'', ''-c:s'', ''copy'', ''-c:d'', ''copy'', ''-c:t'', ''copy'',
                  ''-c:v'', ''libx264'', ''-vf'', ''crop=800:600:0:0'',
                  ''-preset'', ''medium'', ''-crf'', ''18'',
                  ''-movflags'', ''use_metadata_tags+faststart'', ''in.4x3.mp4''])"
    by (simp add: plan_file_def ffprobe_json_def get_video_stream_def Let_def d
        source_bitrate_def build_ffmpeg_cmd_def quality_args_def choose_encoder_def
        CODEC_MAP_def str_eval)
  from e w p show ?thesis by (intro conjI)
qed



subsection \<open>The batch\<close>

lemma main_loop_append:
  "main_loop a (xs @ ys) =
     (case main_loop a xs of
        (s, None) \<Rightarrow> (case main_loop a ys of (t, r) \<Rightarrow> (s @ t, r))
      | (s, Some err) \<Rightarrow> (s, Some err))"
proof (induction xs)
  case Nil
  show ?case by simp
next
  case (Cons x xs)
  obtain src e where x: "x = (src, e)" by (cases x) auto
  show ?case
    using Cons.IH
    by (auto simp: x split: sum.splits step.splits prod.splits option.splits)
qed

lemma main_loop_after:
  assumes "snd (main_loop a before) = None"
  shows "main_loop a (before @ ys) =
     (fst (main_loop a before) @ fst (main_loop a ys), snd (main_loop a ys))"
  using assms by (cases "main_loop a before") (auto simp: main_loop_append split: prod.splits)

text \<open>
  Claim C2, as amended.  When probing a file fails, the program raises an exception that
  nothing catches (\<open>RuntimeError\<close> on a non-zero probe status, \<open>JSONDecodeError\<close> on
  output that does not parse) and the batch ends at that file: the files before it have been
  processed, that file and the files after it are not.  A file that is missing, has no video
  stream or has no readable dimensions is skipped and the batch goes on with the next file.
  A non-zero exit of the execution step ends the batch with that exit code.
\<close>

theorem probe_failure_ends_batch:
  assumes "snd (main_loop a before) = None"
  shows "(src_exists e \<and> ffprobe_rc e \<noteq> 0 \<longrightarrow>
       main_loop a (before @ (src, e) # rest) = (fst (main_loop a before), Some RuntimeError))
   \<and> (src_exists e \<and> ffprobe_rc e = 0 \<and> ffprobe_out e = None \<longrightarrow>
       main_loop a (before @ (src, e) # rest) = (fst (main_loop a before), Some JSONDecodeError))
   \<and> (\<not> src_exists e \<longrightarrow> plan_file a src e = Inr (Skip MissingFile))
   \<and> (src_exists e \<and> ffprobe_rc e = 0 \<and> ffprobe_out e = Some i \<and> get_video_stream i = None
        \<longrightarrow> plan_file a src e = Inr (Skip NoVideoStream))
   \<and> (src_exists e \<and> ffprobe_rc e = 0 \<and> ffprobe_out e = Some i \<and> get_video_stream i = Some v
        \<and> (parse_int (width v) = None \<or> parse_int (height v) = None)
        \<longrightarrow> plan_file a src e = Inr (Skip NoDimensions))
   \<and> (plan_file a src e = Inr (Skip r) \<longrightarrow>
       main_loop a (before @ (src, e) # rest) =
         (fst (main_loop a before) @ Skip r # fst (main_loop a rest), snd (main_loop a rest)))
   \<and> (plan_file a src e = Inr (Run cmd) \<and> \<not> dry_run a \<and> ffmpeg_rc e \<noteq> 0 \<longrightarrow>
       main_loop a (before @ (src, e) # rest) =
         (fst (main_loop a before) @ [Run cmd], Some (SystemExit (ffmpeg_rc e))))"
proof -
  note ap = main_loop_after [OF assms]
  have c1: "src_exists e \<and> ffprobe_rc e \<noteq> 0 \<longrightarrow>
       main_loop a (before @ (src, e) # rest) = (fst (main_loop a before), Some RuntimeError)"
    by (simp add: ap plan_file_def ffprobe_json_def)
  have c2: "src_exists e \<and> ffprobe_rc e = 0 \<and> ffprobe_out e = None \<longrightarrow>
       main_loop a (before @ (src, e) # rest) = (fst (main_loop a before), Some JSONDecodeError)"
    by (simp add: ap plan_file_def ffprobe_json_def)
  have c3: "\<not> src_exists e \<longrightarrow> plan_file a src e = Inr (Skip MissingFile)"
    by (simp add: plan_file_def)
  have c4: "src_exists e \<and> ffprobe_rc e = 0 \<and> ffprobe_out e = Some i \<and> get_video_stream i = None
        \<longrightarrow> plan_file a src e = Inr (Skip NoVideoStream)"
    by (simp add: plan_file_def ffprobe_json_def)
  have c5: "src_exists e \<and> ffprobe_rc e = 0 \<and> ffprobe_out e = Some i \<and> get_video_stream i = Some v
        \<and> (parse_int (width v) = None \<or> parse_int (height v) = None)
        \<longrightarrow> plan_file a src e = Inr (Skip NoDimensions)"
    by (auto simp: plan_file_def ffprobe_json_def Let_def)
  have c6: "plan_file a src e = Inr (Skip r) \<longrightarrow>
       main_loop a (before @ (src, e) # rest) =
         (fst (main_loop a before) @ Skip r # fst (main_loop a rest), snd (main_loop a rest))"
    by (simp add: ap split: prod.splits)
  have c7: "plan_file a src e = Inr (Run cmd) \<and> \<not> dry_run a \<and> ffmpeg_rc e \<noteq> 0 \<longrightarrow>
       main_loop a (before @ (src, e) # rest) =
         (fst (main_loop a before) @ [Run cmd], Some (SystemExit (ffmpeg_rc e)))"
    by (simp add: ap)
  from c1 c2 c3 c4 c5 c6 c7 show ?thesis by (intro conjI)
qed

theorem probe_failure_ends_batch_witness:
  "let a = \<lparr>use_cropdetect = False, crf = None, preset = ''medium'', dry_run = False\<rparr>;
       bad = \<lparr>src_exists = True, ffprobe_rc = 1, ffprobe_out = None, cropdetect_crops = [],
               dst_path = ''a.4x3.mp4'', ffmpeg_rc = 0\<rparr>;
       gone = \<lparr>src_exists = False, ffprobe_rc = 1, ffprobe_out = None, cropdetect_crops = [],
                dst_path = ''g.4x3.mp4'', ffmpeg_rc = 0\<rparr>;
       i = \<lparr>streams = [\<lparr>codec_type = Some ''video'', codec_name = Some ''h264'',
                          width = Numeric 1280, height = Numeric 960, bit_rate = Absent\<rparr>],
             format_bit_rate = Absent\<rparr>;
       good = \<lparr>src_exists = True, ffprobe_rc = 0, ffprobe_out = Some i, cropdetect_crops = [],
                dst_path = ''b.4x3.mp4'', ffmpeg_rc = 0\<rparr>;
       failing = \<lparr>src_exists = True, ffprobe_rc = 0, ffprobe_out = Some i,
                   cropdetect_crops = [], dst_path = ''c.4x3.mp4'', ffmpeg_rc = 2\<rparr>
   in snd (main_loop a []) = None
      \<and> src_exists bad \<and> ffprobe_rc bad \<noteq> 0
      \<and> main_loop a ([] @ (''a.mp4'', bad) # [(''b.mp4'', good)]) = ([], Some RuntimeError)
      \<and> \<not> src_exists gone
      \<and> main_loop a ([] @ (''g.mp4'', gone) # [(''b.mp4'', good)])
          = ([Skip MissingFile, Run (stream_copy_cmd ''b.mp4'' ''b.4x3.mp4'')], None)
      \<and> plan_file a ''c.mp4'' failing = Inr (Run (stream_copy_cmd ''c.mp4'' ''c.4x3.mp4''))
      \<and> \<not> dry_run a \<and> ffmpeg_rc failing \<noteq> 0
      \<and> main_loop a ([] @ (''c.mp4'', failing) # [(''b.mp4'', good)])
          = ([Run (stream_copy_cmd ''c.mp4'' ''c.4x3.mp4'')], Some (SystemExit 2))"
proof -
  let ?a = "\<lparr>use_cropdetect = False, crf = None, preset = ''medium'', dry_run = False\<rparr>"
  let ?bad = "\<lparr>src_exists = True, ffprobe_rc = 1, ffprobe_out = None, cropdetect_crops = [],
               dst_path = ''a.4x3.mp4'', ffmpeg_rc = 0\<rparr>"
  let ?gone = "\<lparr>src_exists = False, ffprobe_rc = 1, ffprobe_out = None, cropdetect_crops = [],
                dst_path = ''g.4x3.mp4'', ffmpeg_rc = 0\<rparr>"
  let ?i = "\<lparr>streams = [\<lparr>codec_type = Some ''video'', codec_name = Some ''h264'',
                          width = Numeric 1280, height = Numeric 960, bit_rate = Absent\<rparr>],
             format_bit_rate = Absent\<rparr>"
  let ?good = "\<lparr>src_exists = True, ffprobe_rc = 0, ffprobe_out = Some ?i, cropdetect_crops = [],
                dst_path = ''b.4x3.mp4'', ffmpeg_rc = 0\<rparr>"
  let ?failing = "\<lparr>src_exists = True, ffprobe_rc = 0, ffprobe_out = Some ?i,
                   cropdetect_crops = [], dst_path = ''c.4x3.mp4'', ffmpeg_rc = 2\<rparr>"
  let ?rest = "[(''b.mp4'', ?good)]"
  have h0: "snd (main_loop ?a []) = None" by simp
  have hb: "src_exists ?bad \<and> ffprobe_rc ?bad \<noteq> 0" by simp
  have hg: "\<not> src_exists ?gone" by simp
  have hf: "plan_file ?a ''c.mp4'' ?failing = Inr (Run (stream_copy_cmd ''c.mp4'' ''c.4x3.mp4''))
      \<and> \<not> dry_run ?a \<and> ffmpeg_rc ?failing \<noteq> 0"
    by (simp add: plan_file_def ffprobe_json_def get_video_stream_def Let_def decide_crop_def
        detect_crop_def src_wide_iff)
  have good: "main_loop ?a ?rest = ([Run (stream_copy_cmd ''b.mp4'' ''b.4x3.mp4'')], None)"
    by (simp add: plan_file_def ffprobe_json_def get_video_stream_def Let_def decide_crop_def
        detect_crop_def src_wide_iff)
  note t1 = probe_failure_ends_batch [OF h0, where e = ?bad and src = "''a.mp4''" and rest = ?rest]
  from t1 hb have c1: "main_loop ?a ([] @ (''a.mp4'', ?bad) # ?rest) = ([], Some RuntimeError)"
    by simp
  note t2 = probe_failure_ends_batch
    [OF h0, where e = ?gone and src = "''g.mp4''" and rest = ?rest and r = MissingFile]
  from t2 hg have "plan_file ?a ''g.mp4'' ?gone = Inr (Skip MissingFile)" by blast
  with t2 have "main_loop ?a ([] @ (''g.mp4'', ?gone) # ?rest) =
      (fst (main_loop ?a []) @ Skip MissingFile # fst (main_loop ?a ?rest),
       snd (main_loop ?a ?rest))"
    by blast
  then have c2: "main_loop ?a ([] @ (''g.mp4'', ?gone) # ?rest)
          = ([Skip MissingFile, Run (stream_copy_cmd ''b.mp4'' ''b.4x3.mp4'')], None)"
    by (simp only: good) simp
  note t3 = probe_failure_ends_batch
    [OF h0, where e = ?failing and src = "''c.mp4''" and rest = ?rest
       and cmd = "stream_copy_cmd ''c.mp4'' ''c.4x3.mp4''"]
  from t3 hf have "main_loop ?a ([] @ (''c.mp4'', ?failing) # ?rest) =
      (fst (main_loop ?a []) @ [Run (stream_copy_cmd ''c.mp4'' ''c.4x3.mp4'')],
       Some (SystemExit (ffmpeg_rc ?failing)))"
    by blast
  then have c3: "main_loop ?a ([] @ (''c.mp4'', ?failing) # ?rest)
          = ([Run (stream_copy_cmd ''c.mp4'' ''c.4x3.mp4'')], Some (SystemExit 2))"
    by simp
  from h0 hb c1 hg c2 hf c3 show ?thesis unfolding Let_def by blast
qed

text \<open>
  Claim C2 as stated fails: with a first file whose probe returns status 1 and a second file
  that is fine (and is stream-copied when it is alone in the batch), the batch ends with
  \<open>RuntimeError\<close> at the first file and the second is never processed.
\<close>

theorem probe_failure_skip_counterexample:
  "ffprobe_rc \<lparr>src_exists = True, ffprobe_rc = 1, ffprobe_out = None, cropdetect_crops = [],
               dst_path = ''a.4x3.mp4'', ffmpeg_rc = 0\<rparr> \<noteq> 0
   \<and> main_loop \<lparr>use_cropdetect = False, crf = None, preset = ''medium'', dry_run = False\<rparr>
       [(''a.mp4'',
         \<lparr>src_exists = True, ffprobe_rc = 1, ffprobe_out = None, cropdetect_crops = [],
          dst_path = ''a.4x3.mp4'', ffmpeg_rc = 0\<rparr>),
        (''b.mp4'',
         \<lparr>src_exists = True, ffprobe_rc = 0,
          ffprobe_out = Some \<lparr>streams = [\<lparr>codec_type = Some ''video'',
                                            codec_name = Some ''h264'', width = Numeric 1280,
                                            height = Numeric 960, bit_rate = Absent\<rparr>],
                                format_bit_rate = Absent\<rparr>,
          cropdetect_crops = [], dst_path = ''b.4x3.mp4'', ffmpeg_rc = 0\<rparr>)]
     = ([], Some RuntimeError)
   \<and> main_loop \<lparr>use_cropdetect = False, crf = None, preset = ''medium'', dry_run = False\<rparr>
       [(''b.mp4'',
         \<lparr>src_exists = True, ffprobe_rc = 0,
          ffprobe_out = Some \<lparr>streams = [\<lparr>codec_type = Some ''video'',
                                            codec_name = Some ''h264'', width = Numeric 1280,
                                            height = Numeric 960, bit_rate = Absent\<rparr>],
                                format_bit_rate = Absent\<rparr>,
          cropdetect_crops = [], dst_path = ''b.4x3.mp4'', ffmpeg_rc = 0\<rparr>)]
     = ([Run (stream_copy_cmd ''b.mp4'' ''b.4x3.mp4'')], None)"
  by (simp add: plan_file_def ffprobe_json_def get_video_stream_def Let_def decide_crop_def
      detect_crop_def src_wide_iff)

end
